theory Spec2Isabelle
  imports Main
begin

section \<open>Expression trees and run-time values\<close>

text \<open>
  A logic expression is the tree that the YAML loader hands to the interpreter: null,
  booleans, numbers, strings, arrays and plain objects. An object is kept as the list of
  its own properties in the order \<open>Object.keys\<close> enumerates them.

  Scope of the model: a number is an integer or NaN (no fractions, no infinities),
  strings are ASCII, and an expression is a tree: no node of it is shared with another
  place of the program (YAML aliases are not modelled), so that every node is an object
  of its own.
\<close>

datatype jv =
    JNull
  | JBool bool
  | JNum int
  | JNaN
  | JStr string
  | JArr "jv list"
  | JObj "(string \<times> jv) list"

text \<open>
  Run-time values. Arrays and objects are JavaScript heap objects: \<open>===\<close> compares them
  by reference, so each carries the address it was allocated at, with its elements or its
  own properties. The only object the evaluators make themselves is the empty one; other
  objects come in with the variables of the program.
\<close>

type_synonym addr = nat

datatype val =
    VNull
  | VBool bool
  | VNum int
  | VNaN
  | VStr string
  | VArr addr "val list"
  | VObj addr "(string \<times> val) list"

text \<open>What is thrown: the \<open>Error\<close>s the interpreter raises itself, and the \<open>TypeError\<close>
  the JavaScript runtime raises (calling \<open>.map\<close> on a non-array, \<open>in\<close> or
  \<open>Object.entries\<close> on null).

  \<open>BuiltinProperty\<close> is not thrown by anything. It ends a run in which a variable
  reference resolved to a property of the built-in prototypes (\<open>$toString\<close> finds
  \<open>Object.prototype.toString\<close>): the program goes on with a function or object of the
  JavaScript library, for which this model has no value, and the run is not followed
  further.\<close>

datatype error =
    UndefinedVariable string
  | UnknownOperation string
  | LetRequiresBindings
  | LetRequiresIn
  | ConcatRequiresArray
  | SubstringRequiresValueStart
  | AndRequiresArray
  | OrRequiresArray
  | EqualsRequiresLeftRight
  | IfRequiresCondition
  | TypeError
  | BuiltinProperty string

section \<open>JavaScript primitives used by the code\<close>

text \<open>\<open>Boolean(v)\<close> on a value and \<open>!x\<close> on a raw tree node.\<close>

fun js_Boolean :: "val \<Rightarrow> bool" where
  "js_Boolean VNull = False"
| "js_Boolean (VBool b) = b"
| "js_Boolean (VNum n) = (n \<noteq> 0)"
| "js_Boolean VNaN = False"
| "js_Boolean (VStr s) = (s \<noteq> [])"
| "js_Boolean (VArr _ _) = True"
| "js_Boolean (VObj _ _) = True"

fun js_truthy :: "jv \<Rightarrow> bool" where
  "js_truthy JNull = False"
| "js_truthy (JBool b) = b"
| "js_truthy (JNum n) = (n \<noteq> 0)"
| "js_truthy JNaN = False"
| "js_truthy (JStr s) = (s \<noteq> [])"
| "js_truthy (JArr _) = True"
| "js_truthy (JObj _) = True"

text \<open>\<open>typeof x === 'object'\<close>: true of null, arrays and objects.\<close>

fun typeof_object :: "jv \<Rightarrow> bool" where
  "typeof_object JNull = True"
| "typeof_object (JArr _) = True"
| "typeof_object (JObj _) = True"
| "typeof_object _ = False"

fun isArray :: "jv \<Rightarrow> bool" where
  "isArray (JArr _) = True"
| "isArray _ = False"

text \<open>\<open>name in x\<close> and \<open>x.name\<close> for an array or object \<open>x\<close> (the code guards both
  against null and primitives). None is \<open>undefined\<close>. The names the code asks an array
  for (\<open>in\<close>, \<open>value\<close>, \<open>left\<close>, ...) are not array properties.\<close>

fun has_key :: "jv \<Rightarrow> string \<Rightarrow> bool" where
  "has_key (JObj kvs) k = (k \<in> set (map fst kvs))"
| "has_key _ k = False"

fun get_prop :: "jv \<Rightarrow> string \<Rightarrow> jv option" where
  "get_prop (JObj kvs) k = map_of kvs k"
| "get_prop _ k = None"

text \<open>Decimal digits of a number, as \<open>String(n)\<close> prints an integer.\<close>

fun string_of_nat :: "nat \<Rightarrow> string" where
  "string_of_nat n =
     (if n < 10 then [''0123456789'' ! n]
      else string_of_nat (n div 10) @ [''0123456789'' ! (n mod 10)])"

declare string_of_nat.simps [simp del]

definition string_of_int :: "int \<Rightarrow> string" where
  "string_of_int i = (if i < 0 then CHR ''-'' # string_of_nat (nat (- i)) else string_of_nat (nat i))"

text \<open>\<open>String(v)\<close> and \<open>Array.prototype.join\<close>: join prints a null element as the empty
  string and every other element with \<open>String\<close>; an array prints as its elements joined
  by commas, an object as \<open>[object Object]\<close>.\<close>

fun js_String :: "val \<Rightarrow> string" and js_join :: "string \<Rightarrow> val list \<Rightarrow> string" where
  "js_String VNull = ''null''"
| "js_String (VBool b) = (if b then ''true'' else ''false'')"
| "js_String (VNum n) = string_of_int n"
| "js_String VNaN = ''NaN''"
| "js_String (VStr s) = s"
| "js_String (VArr a xs) = js_join '','' xs"
| "js_String (VObj a kvs) = ''[object Object]''"
| "js_join sep [] = []"
| "js_join sep [x] = (if x = VNull then [] else js_String x)"
| "js_join sep (x # y # ys) = (if x = VNull then [] else js_String x) @ sep @ js_join sep (y # ys)"

text \<open>\<open>toUpperCase\<close> and \<open>toLowerCase\<close> on ASCII.\<close>

definition lower_letters :: string where
  "lower_letters = ''abcdefghijklmnopqrstuvwxyz''"

definition upper_letters :: string where
  "upper_letters = ''ABCDEFGHIJKLMNOPQRSTUVWXYZ''"

definition toUpperCase :: "string \<Rightarrow> string" where
  "toUpperCase s =
     map (\<lambda>c. case map_of (zip lower_letters upper_letters) c of Some u \<Rightarrow> u | None \<Rightarrow> c) s"

definition toLowerCase :: "string \<Rightarrow> string" where
  "toLowerCase s =
     map (\<lambda>c. case map_of (zip upper_letters lower_letters) c of Some l \<Rightarrow> l | None \<Rightarrow> c) s"

text \<open>The index conversion of \<open>substring\<close>: a number is itself, null is 0, a boolean 0 or
  1, a string of decimal digits its value; whatever converts to NaN is 0. Numeric strings
  in other notations (sign, blanks, exponent, hexadecimal) are outside the model.\<close>

definition digit_value :: "char \<Rightarrow> nat option" where
  "digit_value c = map_of (zip ''0123456789'' [0, 1, 2, 3, 4, 5, 6, 7, 8, 9]) c"

fun digits_value :: "nat \<Rightarrow> string \<Rightarrow> nat option" where
  "digits_value acc [] = Some acc"
| "digits_value acc (c # cs) =
     (case digit_value c of None \<Rightarrow> None | Some d \<Rightarrow> digits_value (10 * acc + d) cs)"

definition string_to_index :: "string \<Rightarrow> int" where
  "string_to_index s = (case digits_value 0 s of None \<Rightarrow> 0 | Some n \<Rightarrow> int n)"

fun js_ToInteger :: "val \<Rightarrow> int" where
  "js_ToInteger VNull = 0"
| "js_ToInteger (VBool b) = (if b then 1 else 0)"
| "js_ToInteger (VNum n) = n"
| "js_ToInteger VNaN = 0"
| "js_ToInteger (VStr s) = string_to_index s"
| "js_ToInteger (VArr a xs) = string_to_index (js_join '','' xs)"
| "js_ToInteger (VObj a kvs) = 0"

text \<open>\<open>s.substring(start, end)\<close>: an absent end is the length; both indices are clamped
  into the string and swapped when out of order.\<close>

definition js_substring :: "string \<Rightarrow> int \<Rightarrow> int option \<Rightarrow> string" where
  "js_substring s start endArg =
     (let len = int (length s);
          intEnd = (case endArg of None \<Rightarrow> len | Some e \<Rightarrow> e);
          finalStart = min (max start 0) len;
          finalEnd = min (max intEnd 0) len;
          fromIdx = min finalStart finalEnd;
          toIdx = max finalStart finalEnd
      in take (nat (toIdx - fromIdx)) (drop (nat fromIdx) s))"

text \<open>\<open>===\<close>: primitives of the same type with the same content, or the same heap
  object. NaN is not equal to anything, itself included.\<close>

fun js_strict_equals :: "val \<Rightarrow> val \<Rightarrow> bool" where
  "js_strict_equals VNull VNull = True"
| "js_strict_equals (VBool a) (VBool b) = (a = b)"
| "js_strict_equals (VNum a) (VNum b) = (a = b)"
| "js_strict_equals (VStr a) (VStr b) = (a = b)"
| "js_strict_equals (VArr a _) (VArr b _) = (a = b)"
| "js_strict_equals (VObj a _) (VObj b _) = (a = b)"
| "js_strict_equals _ _ = False"

definition startsWith_dollar :: "string \<Rightarrow> bool" where
  "startsWith_dollar s = (case s of [] \<Rightarrow> False | c # _ \<Rightarrow> c = CHR ''$'')"

section \<open>The strict evaluator (class FrankaInterpreter)\<close>

text \<open>
  The interpreter object holds the variable scope in its field \<open>variables\<close>; every
  method reads and writes it, so it is threaded through the model together with the
  allocation counter of the JavaScript heap. A method returns its result, or the error
  it threw, and the state it left behind.

  The methods call \<open>this.evaluate\<close> on parts of their argument. Each method is written
  with that callee as its first parameter \<open>ev\<close>; \<open>evaluate\<close> below passes itself.
\<close>

subsection \<open>The scope object\<close>

text \<open>
  \<open>this.variables\<close> is a plain object used as a map from names to values. It is made by
  \<open>{ ...program.variables }\<close> or \<open>{}\<close>, so it starts with \<open>Object.prototype\<close> as its
  prototype. The state keeps its own properties in \<open>variables\<close> and its prototype in
  \<open>prototype\<close>: the prototype it was made with, none, or an array or object value that a
  binding named \<open>__proto__\<close> has put there.
\<close>

datatype proto = ObjectPrototype | NoPrototype | Prototype val

record istate =
  variables :: "string \<rightharpoonup> val"
  prototype :: proto
  next_addr :: addr

text \<open>The string-named properties of \<open>Object.prototype\<close> and \<open>Array.prototype\<close>, as
  ECMAScript 2023 defines them. Their values are functions and objects of the library.\<close>

definition object_prototype_names :: "string list" where
  "object_prototype_names =
     [''constructor'', ''__defineGetter__'', ''__defineSetter__'', ''hasOwnProperty'',
      ''__lookupGetter__'', ''__lookupSetter__'', ''isPrototypeOf'', ''propertyIsEnumerable'',
      ''toString'', ''valueOf'', ''__proto__'', ''toLocaleString'']"

definition array_prototype_names :: "string list" where
  "array_prototype_names =
     [''length'', ''constructor'', ''at'', ''concat'', ''copyWithin'', ''fill'', ''find'',
      ''findIndex'', ''findLast'', ''findLastIndex'', ''lastIndexOf'', ''pop'', ''push'',
      ''reverse'', ''shift'', ''unshift'', ''slice'', ''sort'', ''splice'', ''includes'',
      ''indexOf'', ''join'', ''keys'', ''entries'', ''values'', ''forEach'', ''filter'', ''flat'',
      ''flatMap'', ''map'', ''every'', ''some'', ''reduce'', ''reduceRight'', ''toLocaleString'',
      ''toString'', ''toReversed'', ''toSorted'', ''toSpliced'', ''with'']"

text \<open>The own properties of a value: the elements of an array under their indices and
  its \<open>length\<close>, the properties of an object.\<close>

definition own_property :: "val \<Rightarrow> string \<Rightarrow> val option" where
  "own_property obj name =
     (case obj of
        VArr a xs \<Rightarrow>
          if name = ''length'' then Some (VNum (int (length xs)))
          else map_option (\<lambda>i. xs ! i) (find (\<lambda>i. string_of_nat i = name) [0..<length xs])
      | VObj a kvs \<Rightarrow> map_of kvs name
      | _ \<Rightarrow> None)"

fun is_array :: "val \<Rightarrow> bool" where
  "is_array (VArr _ _) = True"
| "is_array _ = False"

text \<open>What \<open>name in this.variables\<close> and \<open>this.variables[name]\<close> find for a name that is
  not an own property: a value, a property of a built-in prototype, or nothing. The chain
  runs through the own properties of the prototype, then \<open>Array.prototype\<close> when that is
  an array, then \<open>Object.prototype\<close>, whose accessor \<open>__proto__\<close> returns the prototype
  of the scope object.\<close>

datatype found = Value val | Builtin | Absent

definition inherited :: "proto \<Rightarrow> string \<Rightarrow> found" where
  "inherited p name =
     (case p of
        NoPrototype \<Rightarrow> Absent
      | ObjectPrototype \<Rightarrow> if name \<in> set object_prototype_names then Builtin else Absent
      | Prototype obj \<Rightarrow>
          (case own_property obj name of
             Some v \<Rightarrow> Value v
           | None \<Rightarrow>
               if name = ''__proto__'' then Value obj
               else if (is_array obj \<and> name \<in> set array_prototype_names)
                       \<or> name \<in> set object_prototype_names
               then Builtin
               else Absent))"

text \<open>
  \<open>this.variables[key] = v\<close>. The assignment walks the prototype chain first. Every
  property it can meet there is a writable data property, for which it creates or
  updates the own property \<open>key\<close>, except the accessor \<open>__proto__\<close> of
  \<open>Object.prototype\<close>: when \<open>__proto__\<close> is not an own property and no object before
  \<open>Object.prototype\<close> has a property of that name, the assignment calls its setter, which
  makes an object or null the new prototype of the scope object, does nothing for any
  other value, and creates no property.
\<close>

definition setter_reached :: "istate \<Rightarrow> bool" where
  "setter_reached st =
     (variables st ''__proto__'' = None
      \<and> (case prototype st of
            NoPrototype \<Rightarrow> False
          | ObjectPrototype \<Rightarrow> True
          | Prototype obj \<Rightarrow> own_property obj ''__proto__'' = None))"

definition set_variable :: "string \<Rightarrow> val \<Rightarrow> istate \<Rightarrow> istate" where
  "set_variable key v st =
     (if key = ''__proto__'' \<and> setter_reached st then
        (case v of
           VNull \<Rightarrow> st\<lparr>prototype := NoPrototype\<rparr>
         | VArr a xs \<Rightarrow> st\<lparr>prototype := Prototype v\<rparr>
         | VObj a kvs \<Rightarrow> st\<lparr>prototype := Prototype v\<rparr>
         | _ \<Rightarrow> st)
      else st\<lparr>variables := (variables st)(key \<mapsto> v)\<rparr>)"

text \<open>
  The end of \<open>executeLet\<close>: every own property is deleted, and \<open>Object.assign\<close> stores
  the saved properties one by one with the assignment above. Only the store of
  \<open>__proto__\<close> can do something else than create the property, and no other store
  changes what it does, so the order of the stores does not matter.
\<close>

definition restore_variables :: "(string \<rightharpoonup> val) \<Rightarrow> istate \<Rightarrow> istate" where
  "restore_variables savedVariables st =
     (let others = st\<lparr>variables := savedVariables(''__proto__'' := None)\<rparr>
      in case savedVariables ''__proto__'' of
           None \<Rightarrow> others
         | Some v \<Rightarrow> set_variable ''__proto__'' v others)"

subsection \<open>The methods\<close>

type_synonym 'a result = "(error + 'a) \<times> istate"

type_synonym evaluator = "jv \<Rightarrow> istate \<Rightarrow> val result"

primrec evaluate_items :: "evaluator \<Rightarrow> jv list \<Rightarrow> istate \<Rightarrow> (val list) result" where
  "evaluate_items ev [] st = (Inr [], st)"
| "evaluate_items ev (item # items) st =
     (case ev item st of
        (Inl e, st1) \<Rightarrow> (Inl e, st1)
      | (Inr v, st1) \<Rightarrow>
          (case evaluate_items ev items st1 of
             (Inl e, st2) \<Rightarrow> (Inl e, st2)
           | (Inr vs, st2) \<Rightarrow> (Inr (v # vs), st2)))"

definition map_evaluate :: "evaluator \<Rightarrow> jv list \<Rightarrow> istate \<Rightarrow> (addr \<times> val list) result" where
  "map_evaluate ev items st =
     (case evaluate_items ev items (st\<lparr>next_addr := Suc (next_addr st)\<rparr>) of
        (Inl e, st1) \<Rightarrow> (Inl e, st1)
      | (Inr vs, st1) \<Rightarrow> (Inr (next_addr st, vs), st1))"

fun entries_of :: "jv \<Rightarrow> (string \<times> jv) list" where
  "entries_of (JObj kvs) = kvs"
| "entries_of (JArr xs) = zip (map string_of_nat [0..<length xs]) xs"
| "entries_of _ = []"

primrec let_bindings :: "evaluator \<Rightarrow> (string \<times> jv) list \<Rightarrow> istate \<Rightarrow> unit result" where
  "let_bindings ev [] st = (Inr (), st)"
| "let_bindings ev (entry # entries) st =
     (if fst entry \<noteq> ''in'' then
        (case ev (snd entry) st of
           (Inl e, st1) \<Rightarrow> (Inl e, st1)
         | (Inr v, st1) \<Rightarrow> let_bindings ev entries (set_variable (fst entry) v st1))
      else let_bindings ev entries st)"

definition executeLet :: "evaluator \<Rightarrow> jv \<Rightarrow> istate \<Rightarrow> val result" where
  "executeLet ev args st =
     (if \<not> js_truthy args \<or> \<not> typeof_object args then (Inl LetRequiresBindings, st)
      else
        (let savedVariables = variables st in
         case get_prop args ''in'' of
           None \<Rightarrow> (Inl LetRequiresIn, st)
         | Some inExpression \<Rightarrow>
             if \<not> js_truthy inExpression then (Inl LetRequiresIn, st)
             else
               (case let_bindings ev (entries_of args) st of
                  (Inl e, st1) \<Rightarrow> (Inl e, st1)
                | (Inr _, st1) \<Rightarrow>
                    (case ev inExpression st1 of
                       (Inl e, st2) \<Rightarrow> (Inl e, st2)
                     | (Inr result, st2) \<Rightarrow>
                         (Inr result, restore_variables savedVariables st2)))))"

definition extractValue :: "evaluator \<Rightarrow> jv \<Rightarrow> istate \<Rightarrow> val result" where
  "extractValue ev args st =
     (if typeof_object args \<and> args \<noteq> JNull \<and> \<not> isArray args \<and> has_key args ''value'' then
        (case get_prop args ''value'' of
           Some value \<Rightarrow> ev value st
         | None \<Rightarrow> ev args st)
      else ev args st)"

text \<open>The payload of \<open>concat\<close>, \<open>and\<close> and \<open>or\<close>: the array itself, or the \<open>values\<close>
  property of an object; None when the operation throws its own error.\<close>

definition values_of :: "jv \<Rightarrow> jv option" where
  "values_of args =
     (if isArray args then Some args
      else if js_truthy args \<and> typeof_object args \<and> has_key args ''values''
      then get_prop args ''values''
      else None)"

definition executeConcat :: "evaluator \<Rightarrow> jv \<Rightarrow> istate \<Rightarrow> val result" where
  "executeConcat ev args st =
     (case values_of args of
        None \<Rightarrow> (Inl ConcatRequiresArray, st)
      | Some (JArr values) \<Rightarrow>
          (case map_evaluate ev values st of
             (Inl e, st1) \<Rightarrow> (Inl e, st1)
           | (Inr (a, vs), st1) \<Rightarrow> (Inr (VStr (js_join [] vs)), st1))
      | Some _ \<Rightarrow> (Inl TypeError, st))"

definition executeUppercase :: "evaluator \<Rightarrow> jv \<Rightarrow> istate \<Rightarrow> val result" where
  "executeUppercase ev args st =
     (case extractValue ev args st of
        (Inl e, st1) \<Rightarrow> (Inl e, st1)
      | (Inr value, st1) \<Rightarrow> (Inr (VStr (toUpperCase (js_String value))), st1))"

definition executeLowercase :: "evaluator \<Rightarrow> jv \<Rightarrow> istate \<Rightarrow> val result" where
  "executeLowercase ev args st =
     (case extractValue ev args st of
        (Inl e, st1) \<Rightarrow> (Inl e, st1)
      | (Inr value, st1) \<Rightarrow> (Inr (VStr (toLowerCase (js_String value))), st1))"

definition executeLength :: "evaluator \<Rightarrow> jv \<Rightarrow> istate \<Rightarrow> val result" where
  "executeLength ev args st =
     (case extractValue ev args st of
        (Inl e, st1) \<Rightarrow> (Inl e, st1)
      | (Inr value, st1) \<Rightarrow> (Inr (VNum (int (length (js_String value)))), st1))"

definition executeSubstring :: "evaluator \<Rightarrow> jv \<Rightarrow> istate \<Rightarrow> val result" where
  "executeSubstring ev args st =
     (if \<not> js_truthy args \<or> \<not> typeof_object args \<or> \<not> has_key args ''value''
         \<or> \<not> has_key args ''start''
      then (Inl SubstringRequiresValueStart, st)
      else
        (case get_prop args ''value'' of
           None \<Rightarrow> (Inl SubstringRequiresValueStart, st)
         | Some valueExpr \<Rightarrow>
           (case get_prop args ''start'' of
              None \<Rightarrow> (Inl SubstringRequiresValueStart, st)
            | Some startExpr \<Rightarrow>
             (case ev valueExpr st of
                (Inl e, st1) \<Rightarrow> (Inl e, st1)
              | (Inr value, st1) \<Rightarrow>
                  (case ev startExpr st1 of
                     (Inl e, st2) \<Rightarrow> (Inl e, st2)
                   | (Inr start, st2) \<Rightarrow>
                       (case get_prop args ''end'' of
                          None \<Rightarrow>
                            (Inr (VStr (js_substring (js_String value) (js_ToInteger start) None)),
                             st2)
                        | Some endExpr \<Rightarrow>
                            (case ev endExpr st2 of
                               (Inl e, st3) \<Rightarrow> (Inl e, st3)
                             | (Inr endVal, st3) \<Rightarrow>
                                 (Inr (VStr (js_substring (js_String value) (js_ToInteger start)
                                               (Some (js_ToInteger endVal)))), st3))))))))"

definition executeAnd :: "evaluator \<Rightarrow> jv \<Rightarrow> istate \<Rightarrow> val result" where
  "executeAnd ev args st =
     (case values_of args of
        None \<Rightarrow> (Inl AndRequiresArray, st)
      | Some (JArr values) \<Rightarrow>
          (case map_evaluate ev values st of
             (Inl e, st1) \<Rightarrow> (Inl e, st1)
           | (Inr (a, vs), st1) \<Rightarrow> (Inr (VBool (list_all js_Boolean vs)), st1))
      | Some _ \<Rightarrow> (Inl TypeError, st))"

definition executeOr :: "evaluator \<Rightarrow> jv \<Rightarrow> istate \<Rightarrow> val result" where
  "executeOr ev args st =
     (case values_of args of
        None \<Rightarrow> (Inl OrRequiresArray, st)
      | Some (JArr values) \<Rightarrow>
          (case map_evaluate ev values st of
             (Inl e, st1) \<Rightarrow> (Inl e, st1)
           | (Inr (a, vs), st1) \<Rightarrow> (Inr (VBool (list_ex js_Boolean vs)), st1))
      | Some _ \<Rightarrow> (Inl TypeError, st))"

definition executeNot :: "evaluator \<Rightarrow> jv \<Rightarrow> istate \<Rightarrow> val result" where
  "executeNot ev args st =
     (case extractValue ev args st of
        (Inl e, st1) \<Rightarrow> (Inl e, st1)
      | (Inr value, st1) \<Rightarrow> (Inr (VBool (\<not> js_Boolean value)), st1))"

definition executeEquals :: "evaluator \<Rightarrow> jv \<Rightarrow> istate \<Rightarrow> val result" where
  "executeEquals ev args st =
     (if \<not> js_truthy args \<or> \<not> typeof_object args \<or> \<not> has_key args ''left''
         \<or> \<not> has_key args ''right''
      then (Inl EqualsRequiresLeftRight, st)
      else
        (case get_prop args ''left'' of
           None \<Rightarrow> (Inl EqualsRequiresLeftRight, st)
         | Some leftExpr \<Rightarrow>
           (case get_prop args ''right'' of
              None \<Rightarrow> (Inl EqualsRequiresLeftRight, st)
            | Some rightExpr \<Rightarrow>
             (case ev leftExpr st of
                (Inl e, st1) \<Rightarrow> (Inl e, st1)
              | (Inr left, st1) \<Rightarrow>
                  (case ev rightExpr st1 of
                     (Inl e, st2) \<Rightarrow> (Inl e, st2)
                   | (Inr right, st2) \<Rightarrow> (Inr (VBool (js_strict_equals left right)), st2))))))"

definition executeIf :: "evaluator \<Rightarrow> jv \<Rightarrow> istate \<Rightarrow> val result" where
  "executeIf ev args st =
     (if \<not> js_truthy args \<or> \<not> typeof_object args \<or> \<not> has_key args ''condition''
      then (Inl IfRequiresCondition, st)
      else
        (case get_prop args ''condition'' of
           None \<Rightarrow> (Inl IfRequiresCondition, st)
         | Some conditionExpr \<Rightarrow>
             (case ev conditionExpr st of
                (Inl e, st1) \<Rightarrow> (Inl e, st1)
              | (Inr condition, st1) \<Rightarrow>
                  if js_Boolean condition then
                    (case get_prop args ''then'' of
                       Some thenExpr \<Rightarrow> ev thenExpr st1
                     | None \<Rightarrow> (Inr VNull, st1))
                  else
                    (case get_prop args ''else'' of
                       Some elseExpr \<Rightarrow> ev elseExpr st1
                     | None \<Rightarrow> (Inr VNull, st1)))))"

text \<open>The switch of \<open>evaluate\<close> on the operation name.\<close>

definition dispatch :: "evaluator \<Rightarrow> string \<Rightarrow> jv \<Rightarrow> istate \<Rightarrow> val result" where
  "dispatch ev operationName operationArgs st =
     (if operationName = ''let'' then executeLet ev operationArgs st
      else if operationName = ''concat'' then executeConcat ev operationArgs st
      else if operationName = ''uppercase'' then executeUppercase ev operationArgs st
      else if operationName = ''lowercase'' then executeLowercase ev operationArgs st
      else if operationName = ''length'' then executeLength ev operationArgs st
      else if operationName = ''substring'' then executeSubstring ev operationArgs st
      else if operationName = ''and'' then executeAnd ev operationArgs st
      else if operationName = ''or'' then executeOr ev operationArgs st
      else if operationName = ''not'' then executeNot ev operationArgs st
      else if operationName = ''equals'' then executeEquals ev operationArgs st
      else if operationName = ''if'' then executeIf ev operationArgs st
      else (Inl (UnknownOperation operationName), st))"


subsection \<open>Every method calls the evaluator on parts of its argument only\<close>

lemma map_of_size: "map_of kvs k = Some v \<Longrightarrow> size v < Suc (size_list (size_prod (\<lambda>_. 0) size) kvs)"
  by (induction kvs) (auto split: if_splits)

lemma get_prop_size: "get_prop a k = Some v \<Longrightarrow> size v < size a"
  by (cases a) (auto dest: map_of_size)

lemma evaluate_items_cong:
  assumes "\<And>x s. x \<in> set items \<Longrightarrow> ev x s = ev' x s"
  shows "evaluate_items ev items st = evaluate_items ev' items st"
  using assms
proof (induction items arbitrary: st)
  case Nil
  show ?case by simp
next
  case (Cons item items)
  have a: "ev item st = ev' item st" using Cons.prems by simp
  have b: "\<And>s. evaluate_items ev items s = evaluate_items ev' items s"
    using Cons.IH Cons.prems by simp
  show ?case by (simp add: a b split: prod.splits sum.splits)
qed

lemma set_size_less: "x \<in> set items \<Longrightarrow> size x < size (JArr items)"
  by (induction items) auto

lemma map_evaluate_cong:
  assumes "\<And>x s. size x < size (JArr items) \<Longrightarrow> ev x s = ev' x s"
  shows "map_evaluate ev items st = map_evaluate ev' items st"
proof -
  have "\<And>s. evaluate_items ev items s = evaluate_items ev' items s"
    using assms set_size_less by (intro evaluate_items_cong) blast
  then show ?thesis by (simp add: map_evaluate_def)
qed

lemma let_bindings_cong:
  assumes "\<And>x s. x \<in> snd ` set entries \<Longrightarrow> ev x s = ev' x s"
  shows "let_bindings ev entries st = let_bindings ev' entries st"
  using assms
proof (induction entries arbitrary: st)
  case Nil
  show ?case by simp
next
  case (Cons entry entries)
  have a: "\<And>s. ev (snd entry) s = ev' (snd entry) s" using Cons.prems by simp
  have b: "\<And>s. let_bindings ev entries s = let_bindings ev' entries s"
    using Cons.IH Cons.prems by simp
  show ?case by (simp add: a b split: prod.splits sum.splits)
qed

lemma pair_size_less: "(k, x) \<in> set kvs \<Longrightarrow> size x < size (JObj kvs)"
  by (induction kvs) auto

lemma entries_of_size: "x \<in> snd ` set (entries_of args) \<Longrightarrow> size x < size args"
proof (cases args)
  case (JObj kvs)
  assume "x \<in> snd ` set (entries_of args)"
  then obtain k where "(k, x) \<in> set kvs" using JObj by auto
  then show ?thesis using JObj pair_size_less by blast
next
  case (JArr xs)
  assume "x \<in> snd ` set (entries_of args)"
  then have "x \<in> set xs" using JArr by (auto dest: set_zip_rightD)
  then show ?thesis using JArr set_size_less by blast
qed auto


lemma extractValue_cong:
  assumes "\<And>x s. size x \<le> size args \<Longrightarrow> ev x s = ev' x s"
  shows "extractValue ev args st = extractValue ev' args st"
proof -
  have "\<And>x s. get_prop args ''value'' = Some x \<Longrightarrow> ev x s = ev' x s"
    using assms get_prop_size by (simp add: less_imp_le)
  then show ?thesis
    unfolding extractValue_def by (simp add: assms split: option.splits)
qed

lemma values_of_size: "values_of args = Some (JArr values) \<Longrightarrow> size (JArr values) \<le> size args"
  unfolding values_of_def by (auto split: if_splits dest: get_prop_size)

lemma map_evaluate_cong':
  assumes "\<And>x s. size x \<le> size args \<Longrightarrow> ev x s = ev' x s"
    and "values_of args = Some (JArr values)"
  shows "map_evaluate ev values st = map_evaluate ev' values st"
  using assms values_of_size [of args "values"] by (intro map_evaluate_cong) simp

lemma executeConcat_cong:
  assumes "\<And>x s. size x \<le> size args \<Longrightarrow> ev x s = ev' x s"
  shows "executeConcat ev args st = executeConcat ev' args st"
  unfolding executeConcat_def
  by (simp add: map_evaluate_cong' [where args = args and ev = ev and ev' = ev', OF assms] split: option.splits jv.splits)

lemma executeAnd_cong:
  assumes "\<And>x s. size x \<le> size args \<Longrightarrow> ev x s = ev' x s"
  shows "executeAnd ev args st = executeAnd ev' args st"
  unfolding executeAnd_def
  by (simp add: map_evaluate_cong' [where args = args and ev = ev and ev' = ev', OF assms] split: option.splits jv.splits)

lemma executeOr_cong:
  assumes "\<And>x s. size x \<le> size args \<Longrightarrow> ev x s = ev' x s"
  shows "executeOr ev args st = executeOr ev' args st"
  unfolding executeOr_def
  by (simp add: map_evaluate_cong' [where args = args and ev = ev and ev' = ev', OF assms] split: option.splits jv.splits)

lemma get_prop_cong:
  assumes "\<And>x s. size x \<le> size args \<Longrightarrow> ev x s = ev' x s"
    and "get_prop args k = Some x"
  shows "ev x s = ev' x s"
  using assms get_prop_size [of args k x] by simp

lemma executeSubstring_cong:
  assumes "\<And>x s. size x \<le> size args \<Longrightarrow> ev x s = ev' x s"
  shows "executeSubstring ev args st = executeSubstring ev' args st"
proof -
  note g = get_prop_cong [where args = args and ev = ev and ev' = ev', OF assms]
  show ?thesis
    by (cases "get_prop args ''value''"; cases "get_prop args ''start''";
        cases "get_prop args ''end''";
        simp add: executeSubstring_def g [where k = "''value''"] g [where k = "''start''"]
          g [where k = "''end''"] cong: prod.case_cong sum.case_cong)
qed

lemma executeEquals_cong:
  assumes "\<And>x s. size x \<le> size args \<Longrightarrow> ev x s = ev' x s"
  shows "executeEquals ev args st = executeEquals ev' args st"
proof -
  note g = get_prop_cong [where args = args and ev = ev and ev' = ev', OF assms]
  show ?thesis
    by (cases "get_prop args ''left''"; cases "get_prop args ''right''";
        simp add: executeEquals_def g [where k = "''left''"] g [where k = "''right''"]
          cong: prod.case_cong sum.case_cong)
qed

lemma executeIf_cong:
  assumes "\<And>x s. size x \<le> size args \<Longrightarrow> ev x s = ev' x s"
  shows "executeIf ev args st = executeIf ev' args st"
proof -
  note g = get_prop_cong [where args = args and ev = ev and ev' = ev', OF assms]
  show ?thesis
    by (cases "get_prop args ''condition''"; cases "get_prop args ''then''";
        cases "get_prop args ''else''";
        simp add: executeIf_def g [where k = "''condition''"] g [where k = "''then''"]
          g [where k = "''else''"] cong: prod.case_cong sum.case_cong if_cong)
qed

lemma executeLet_cong:
  assumes "\<And>x s. size x \<le> size args \<Longrightarrow> ev x s = ev' x s"
  shows "executeLet ev args st = executeLet ev' args st"
proof -
  note g = get_prop_cong [where args = args and ev = ev and ev' = ev', OF assms]
  have lb: "\<And>s. let_bindings ev (entries_of args) s = let_bindings ev' (entries_of args) s"
    using assms entries_of_size by (intro let_bindings_cong) (simp add: less_imp_le)
  show ?thesis
    by (cases "get_prop args ''in''";
        simp add: executeLet_def lb g [where k = "''in''"] cong: prod.case_cong sum.case_cong)
qed

lemma dispatch_cong [fundef_cong]:
  assumes "operationName = operationName'" and "operationArgs = operationArgs'" and "st = st'"
    and "\<And>x s. size x \<le> size operationArgs' \<Longrightarrow> ev x s = ev' x s"
  shows "dispatch ev operationName operationArgs st = dispatch ev' operationName' operationArgs' st'"
  unfolding dispatch_def assms(1,2,3) executeUppercase_def executeLowercase_def executeLength_def
    executeNot_def
  using executeLet_cong [where args = operationArgs' and ev = ev and ev' = ev', OF assms(4)] executeConcat_cong [where args = operationArgs' and ev = ev and ev' = ev', OF assms(4)]
    extractValue_cong [where args = operationArgs' and ev = ev and ev' = ev', OF assms(4)] executeSubstring_cong [where args = operationArgs' and ev = ev and ev' = ev', OF assms(4)]
    executeAnd_cong [where args = operationArgs' and ev = ev and ev' = ev', OF assms(4)] executeOr_cong [where args = operationArgs' and ev = ev and ev' = ev', OF assms(4)]
    executeEquals_cong [where args = operationArgs' and ev = ev and ev' = ev', OF assms(4)] executeIf_cong [where args = operationArgs' and ev = ev and ev' = ev', OF assms(4)]
  by simp

lemma map_evaluate_fcong [fundef_cong]:
  assumes "items = items'" and "st = st'"
    and "\<And>x s. size x < size (JArr items') \<Longrightarrow> ev x s = ev' x s"
  shows "map_evaluate ev items st = map_evaluate ev' items' st'"
  unfolding assms(1,2) using assms(3) by (rule map_evaluate_cong)

text \<open>
  \<open>evaluate\<close>. A reference \<open>$name\<close> is looked up with \<open>in\<close>, which finds the own
  properties of the scope object and what it inherits. An array is mapped into a new
  array. An empty mapping is returned as it is, the node itself: in a tree it is an object
  of its own, met nowhere before, and the model allocates it where it is evaluated.
\<close>

function evaluate :: "jv \<Rightarrow> istate \<Rightarrow> val result" where
  "evaluate expression st =
     (case expression of
        JNull \<Rightarrow> (Inr VNull, st)
      | JStr s \<Rightarrow>
          if startsWith_dollar s then
            (let varName = tl s in
             case variables st varName of
               Some v \<Rightarrow> (Inr v, st)
             | None \<Rightarrow>
                 (case inherited (prototype st) varName of
                    Value v \<Rightarrow> (Inr v, st)
                  | Builtin \<Rightarrow> (Inl (BuiltinProperty varName), st)
                  | Absent \<Rightarrow> (Inl (UndefinedVariable varName), st)))
          else (Inr (VStr s), st)
      | JNum n \<Rightarrow> (Inr (VNum n), st)
      | JNaN \<Rightarrow> (Inr VNaN, st)
      | JBool b \<Rightarrow> (Inr (VBool b), st)
      | JArr items \<Rightarrow>
          (case map_evaluate evaluate items st of
             (Inl e, st1) \<Rightarrow> (Inl e, st1)
           | (Inr (a, vs), st1) \<Rightarrow> (Inr (VArr a vs), st1))
      | JObj kvs \<Rightarrow>
          (case kvs of
             [] \<Rightarrow> (Inr (VObj (next_addr st) []), st\<lparr>next_addr := Suc (next_addr st)\<rparr>)
           | (operationName, operationArgs) # _ \<Rightarrow>
               dispatch evaluate operationName operationArgs st))"
  by pat_completeness auto
termination
  by (relation "measure (\<lambda>(e, s). size e)") auto


declare evaluate.simps [simp del]

text \<open>\<open>execute\<close> starts a run with a new scope object that holds the program's variables,
  or none. What the run allocates is new: its addresses start above every address that
  occurs in the variables.\<close>

fun addresses :: "val \<Rightarrow> addr list" where
  "addresses (VArr a xs) = a # concat (map addresses xs)"
| "addresses (VObj a kvs) = a # concat (map (\<lambda>kv. addresses (snd kv)) kvs)"
| "addresses _ = []"

definition fresh_address :: "(string \<times> val) list \<Rightarrow> addr" where
  "fresh_address vars =
     foldr (\<lambda>a n. max (Suc a) n) (concat (map (\<lambda>kv. addresses (snd kv)) vars)) 0"

definition initial_state :: "(string \<times> val) list option \<Rightarrow> istate" where
  "initial_state programVariables =
     (case programVariables of
        Some vars \<Rightarrow>
          \<lparr>variables = map_of vars, prototype = ObjectPrototype, next_addr = fresh_address vars\<rparr>
      | None \<Rightarrow> \<lparr>variables = Map.empty, prototype = ObjectPrototype, next_addr = 0\<rparr>)"

definition execute :: "(string \<times> val) list option \<Rightarrow> jv \<Rightarrow> error + val" where
  "execute programVariables expression = fst (evaluate expression (initial_state programVariables))"


section \<open>Path identifiers and the coverage tracker (treeUtils.ts)\<close>

text \<open>\<open>JSON.stringify\<close> of a primitive. A string is quoted, with the quote, the backslash
  and the control characters escaped.\<close>

definition hex_digit :: "nat \<Rightarrow> char" where
  "hex_digit n = ''0123456789abcdef'' ! n"

definition json_escape_char :: "char \<Rightarrow> string" where
  "json_escape_char c =
     (if c = CHR 0x22 then [CHR 0x5C, CHR 0x22]
      else if c = CHR 0x5C then [CHR 0x5C, CHR 0x5C]
      else if c = CHR 0x08 then [CHR 0x5C, CHR ''b'']
      else if c = CHR 0x0C then [CHR 0x5C, CHR ''f'']
      else if c = CHR 0x0A then [CHR 0x5C, CHR ''n'']
      else if c = CHR 0x0D then [CHR 0x5C, CHR ''r'']
      else if c = CHR 0x09 then [CHR 0x5C, CHR ''t'']
      else if (of_char c :: nat) < 32
        then [CHR 0x5C, CHR ''u'', CHR ''0'', CHR ''0'',
              hex_digit (of_char c div 16), hex_digit (of_char c mod 16)]
      else [c])"

definition json_quote :: "string \<Rightarrow> string" where
  "json_quote s = [CHR 0x22] @ concat (map json_escape_char s) @ [CHR 0x22]"

fun JSON_stringify :: "jv \<Rightarrow> string" where
  "JSON_stringify JNull = ''null''"
| "JSON_stringify (JBool b) = (if b then ''true'' else ''false'')"
| "JSON_stringify (JNum n) = string_of_int n"
| "JSON_stringify JNaN = ''null''"
| "JSON_stringify (JStr s) = json_quote s"
| "JSON_stringify _ = []"

text \<open>\<open>Array.prototype.sort\<close> without a comparator orders strings by their code units;
  \<open>keys.join(',')\<close> puts a comma between them.\<close>

fun str_less :: "string \<Rightarrow> string \<Rightarrow> bool" where
  "str_less [] [] = False"
| "str_less [] (d # ds) = True"
| "str_less (c # cs) [] = False"
| "str_less (c # cs) (d # ds) =
     ((of_char c :: nat) < of_char d \<or> (c = d \<and> str_less cs ds))"

fun insert_key :: "string \<Rightarrow> string list \<Rightarrow> string list" where
  "insert_key k [] = [k]"
| "insert_key k (x # xs) = (if str_less x k then x # insert_key k xs else k # x # xs)"

definition sort_keys :: "string list \<Rightarrow> string list" where
  "sort_keys ks = foldr insert_key ks []"

fun join_strings :: "string \<Rightarrow> string list \<Rightarrow> string" where
  "join_strings sep [] = []"
| "join_strings sep [x] = x"
| "join_strings sep (x # y # ys) = x @ sep @ join_strings sep (y # ys)"

definition generatePathId :: "jv \<Rightarrow> string \<Rightarrow> string" where
  "generatePathId expr prefix =
     (case expr of
        JArr items \<Rightarrow> prefix @ '':array['' @ string_of_nat (length items) @ '']''
      | JObj kvs \<Rightarrow> prefix @ '':{'' @ join_strings '','' (sort_keys (map fst kvs)) @ ''}''
      | _ \<Rightarrow> prefix @ '':'' @ JSON_stringify expr)"

text \<open>The evaluation context (\<open>Record<string, any>\<close>), and what the diagnostic
  functions mutate: the optional \<open>CoverageTracker\<close> (None when no tracker is passed) and
  the allocation counter of the heap.\<close>

fun typeof_string :: "jv \<Rightarrow> bool" where
  "typeof_string (JStr _) = True"
| "typeof_string _ = False"

type_synonym ctx = "string \<rightharpoonup> val"

record dstate =
  coveredPaths :: "string set option"
  heap_next :: addr

definition markCovered :: "string \<Rightarrow> dstate \<Rightarrow> dstate" where
  "markCovered path ds = ds\<lparr>coveredPaths := map_option (insert path) (coveredPaths ds)\<rparr>"

definition isCovered :: "string \<Rightarrow> dstate \<Rightarrow> bool option" where
  "isCovered path ds = map_option (\<lambda>paths. path \<in> paths) (coveredPaths ds)"

section \<open>The diagnostic evaluator (tryEvaluate)\<close>

type_synonym 'a dresult = "(error + 'a) \<times> dstate"

type_synonym tryEvaluator = "jv \<Rightarrow> ctx \<Rightarrow> string \<Rightarrow> dstate \<Rightarrow> val dresult"

text \<open>\<open>items.map((item, idx) => tryEvaluate(item, context, tracker, prefix(idx)))\<close>, from
  index \<open>idx\<close> on.\<close>

primrec tryEvaluate_items ::
  "tryEvaluator \<Rightarrow> (nat \<Rightarrow> string) \<Rightarrow> ctx \<Rightarrow> nat \<Rightarrow> jv list \<Rightarrow> dstate \<Rightarrow> (val list) dresult" where
  "tryEvaluate_items tev mkPrefix context idx [] ds = (Inr [], ds)"
| "tryEvaluate_items tev mkPrefix context idx (item # items) ds =
     (case tev item context (mkPrefix idx) ds of
        (Inl e, ds1) \<Rightarrow> (Inl e, ds1)
      | (Inr v, ds1) \<Rightarrow>
          (case tryEvaluate_items tev mkPrefix context (Suc idx) items ds1 of
             (Inl e, ds2) \<Rightarrow> (Inl e, ds2)
           | (Inr vs, ds2) \<Rightarrow> (Inr (v # vs), ds2)))"

text \<open>The loop over \<open>Object.entries(letValue)\<close>: every binding is evaluated in the
  context the \<open>let\<close> was entered with, and stored into \<open>newContext\<close>.\<close>

primrec tryEvaluate_bindings ::
  "tryEvaluator \<Rightarrow> string \<Rightarrow> ctx \<Rightarrow> (string \<times> jv) list \<Rightarrow> ctx \<Rightarrow> dstate \<Rightarrow> ctx dresult" where
  "tryEvaluate_bindings tev pathPrefix context [] newContext ds = (Inr newContext, ds)"
| "tryEvaluate_bindings tev pathPrefix context (entry # entries) newContext ds =
     (case tev (snd entry) context (pathPrefix @ ''.let.'' @ fst entry) ds of
        (Inl e, ds1) \<Rightarrow> (Inl e, ds1)
      | (Inr v, ds1) \<Rightarrow>
          tryEvaluate_bindings tev pathPrefix context entries (newContext(fst entry \<mapsto> v)) ds1)"

lemma tryEvaluate_items_cong [fundef_cong]:
  assumes "items = items'" and "ds = ds'" and "idx = idx'"
    and "\<And>x c p s. x \<in> set items' \<Longrightarrow> tev x c p s = tev' x c p s"
  shows "tryEvaluate_items tev mkPrefix context idx items ds
       = tryEvaluate_items tev' mkPrefix context idx' items' ds'"
  unfolding assms(1,2,3) using assms(4)
proof (induction items' arbitrary: idx' ds')
  case Nil
  show ?case by simp
next
  case (Cons item items)
  have a: "\<And>c p s. tev item c p s = tev' item c p s" using Cons.prems by simp
  have b: "\<And>i s. tryEvaluate_items tev mkPrefix context i items s
              = tryEvaluate_items tev' mkPrefix context i items s"
    using Cons.IH Cons.prems by simp
  show ?case by (simp add: a b cong: prod.case_cong sum.case_cong)
qed

lemma tryEvaluate_bindings_cong [fundef_cong]:
  assumes "entries = entries'" and "ds = ds'" and "newContext = newContext'"
    and "\<And>x c p s. x \<in> snd ` set entries' \<Longrightarrow> tev x c p s = tev' x c p s"
  shows "tryEvaluate_bindings tev pathPrefix context entries newContext ds
       = tryEvaluate_bindings tev' pathPrefix context entries' newContext' ds'"
  unfolding assms(1,2,3) using assms(4)
proof (induction entries' arbitrary: newContext' ds')
  case Nil
  show ?case by simp
next
  case (Cons entry entries)
  have a: "\<And>c p s. tev (snd entry) c p s = tev' (snd entry) c p s" using Cons.prems by simp
  have b: "\<And>n s. tryEvaluate_bindings tev pathPrefix context entries n s
              = tryEvaluate_bindings tev' pathPrefix context entries n s"
    using Cons.IH Cons.prems by simp
  show ?case by (simp add: a b cong: prod.case_cong sum.case_cong)
qed

text \<open>The measure of the recursion: the size of the expression.\<close>

definition esize :: "jv \<Rightarrow> nat" where
  "esize e = size e"

lemma esize_item: "x \<in> set items \<Longrightarrow> esize x < esize (JArr items)"
  unfolding esize_def by (rule set_size_less)

lemma esize_first: "esize v < esize (JObj ((k, v) # others))"
  unfolding esize_def by simp

lemma esize_prop: "get_prop a k = Some v \<Longrightarrow> esize v < esize a"
  unfolding esize_def by (rule get_prop_size)

lemma esize_first_item: "x \<in> set items \<Longrightarrow> esize x < esize (JObj ((k, JArr items) # others))"
  using esize_item [of x items] esize_first [of "JArr items" k others] by simp

lemma esize_first_prop: "get_prop y k = Some x \<Longrightarrow> esize x < esize (JObj ((k', y) # others))"
  using esize_prop [of y k x] esize_first [of y k' others] by simp

lemma esize_entry: "x \<in> snd ` set (entries_of l) \<Longrightarrow> esize x < esize l"
  unfolding esize_def by (rule entries_of_size)

lemma esize_prop_entry:
  "get_prop a k = Some l \<Longrightarrow> x \<in> snd ` set (entries_of l) \<Longrightarrow> esize x < esize a"
  using esize_prop [of a k l] esize_entry [of x l] by simp

lemma esize_first': "(k, v) = e \<Longrightarrow> esize v < esize (JObj (e # others))"
  using esize_first by blast

lemma esize_first_item':
  "(k, JArr items) = e \<Longrightarrow> x \<in> set items \<Longrightarrow> esize x < esize (JObj (e # others))"
  using esize_first_item by blast

lemma esize_first_prop':
  "(k', y) = e \<Longrightarrow> get_prop y k = Some x \<Longrightarrow> esize x < esize (JObj (e # others))"
  using esize_first_prop by blast

lemmas esize_intros = esize_item esize_first esize_prop esize_first_item esize_first_prop
  esize_prop_entry

function tryEvaluate :: "jv \<Rightarrow> ctx \<Rightarrow> string \<Rightarrow> dstate \<Rightarrow> val dresult" where
  "tryEvaluate expr context pathPrefix ds0 =
     (let currentPath = generatePathId expr pathPrefix;
          ds = markCovered currentPath ds0;
          attempt =
            (case expr of
               JNull \<Rightarrow> (Inr VNull, ds)
             | JBool b \<Rightarrow> (Inr (VBool b), ds)
             | JNum n \<Rightarrow> (Inr (VNum n), ds)
             | JNaN \<Rightarrow> (Inr VNaN, ds)
             | JStr s \<Rightarrow> (Inr (VStr s), ds)
             | JArr items \<Rightarrow>
                 (case tryEvaluate_items tryEvaluate
                         (\<lambda>idx. pathPrefix @ ''['' @ string_of_nat idx @ '']'') context 0 items
                         (ds\<lparr>heap_next := Suc (heap_next ds)\<rparr>) of
                    (Inl e, ds1) \<Rightarrow> (Inl e, ds1)
                  | (Inr vs, ds1) \<Rightarrow> (Inr (VArr (heap_next ds) vs), ds1))
             | JObj kvs \<Rightarrow>
                 (case kvs of
                    [] \<Rightarrow> (Inr VNull, ds)
                  | (key, value) # _ \<Rightarrow>
                      let keys = map fst kvs in
                      if key = ''get'' \<and> typeof_string value then
                        (case value of
                           JStr name \<Rightarrow>
                             (case context name of
                                Some v \<Rightarrow> (Inr v, ds)
                              | None \<Rightarrow> (Inr (VStr (''<'' @ name @ ''>'')), ds))
                         | _ \<Rightarrow> (Inl TypeError, ds))
                      else if key = ''concat'' \<and> isArray value then
                        (case value of
                           JArr items \<Rightarrow>
                             (case tryEvaluate_items tryEvaluate
                                     (\<lambda>idx. pathPrefix @ ''.concat['' @ string_of_nat idx @ '']'')
                                     context 0 items (ds\<lparr>heap_next := Suc (heap_next ds)\<rparr>) of
                                (Inl e, ds1) \<Rightarrow> (Inl e, ds1)
                              | (Inr parts, ds1) \<Rightarrow>
                                  (Inr (VStr (concat (map js_String parts))),
                                   ds1\<lparr>heap_next := Suc (heap_next ds1)\<rparr>))
                         | _ \<Rightarrow> (Inl TypeError, ds))
                      else if key = ''uppercase'' then
                        (case tryEvaluate value context (pathPrefix @ ''.uppercase'') ds of
                           (Inl e, ds1) \<Rightarrow> (Inl e, ds1)
                         | (Inr evaluated, ds1) \<Rightarrow>
                             (case evaluated of
                                VStr s \<Rightarrow> (Inr (VStr (toUpperCase s)), ds1)
                              | _ \<Rightarrow> (Inr evaluated, ds1)))
                      else if key = ''lowercase'' then
                        (case tryEvaluate value context (pathPrefix @ ''.lowercase'') ds of
                           (Inl e, ds1) \<Rightarrow> (Inl e, ds1)
                         | (Inr evaluated, ds1) \<Rightarrow>
                             (case evaluated of
                                VStr s \<Rightarrow> (Inr (VStr (toLowerCase s)), ds1)
                              | _ \<Rightarrow> (Inr evaluated, ds1)))
                      else if ''if'' \<in> set keys \<and> (''then'' \<in> set keys \<or> ''else'' \<in> set keys) then
                        (case get_prop expr ''if'' of
                           None \<Rightarrow> (Inl TypeError, ds)
                         | Some ifExpr \<Rightarrow>
                             (case tryEvaluate ifExpr context (pathPrefix @ ''.if'') ds of
                                (Inl e, ds1) \<Rightarrow> (Inl e, ds1)
                              | (Inr condition, ds1) \<Rightarrow>
                                  if js_Boolean condition then
                                    (case get_prop expr ''then'' of
                                       Some thenExpr \<Rightarrow>
                                         tryEvaluate thenExpr context (pathPrefix @ ''.then'') ds1
                                     | None \<Rightarrow> (Inr VNull, ds1))
                                  else
                                    (case get_prop expr ''else'' of
                                       Some elseExpr \<Rightarrow>
                                         tryEvaluate elseExpr context (pathPrefix @ ''.else'') ds1
                                     | None \<Rightarrow> (Inr VNull, ds1))))
                      else if key = ''equals'' \<and> typeof_object value \<and> value = JNull then
                        (Inl TypeError, ds)
                      else if key = ''equals'' \<and> typeof_object value \<and> has_key value ''left''
                              \<and> has_key value ''right'' then
                        (case get_prop value ''left'' of
                           None \<Rightarrow> (Inl TypeError, ds)
                         | Some leftExpr \<Rightarrow>
                             (case get_prop value ''right'' of
                                None \<Rightarrow> (Inl TypeError, ds)
                              | Some rightExpr \<Rightarrow>
                                  (case tryEvaluate leftExpr context (pathPrefix @ ''.equals.left'') ds of
                                     (Inl e, ds1) \<Rightarrow> (Inl e, ds1)
                                   | (Inr left, ds1) \<Rightarrow>
                                       (case tryEvaluate rightExpr context
                                               (pathPrefix @ ''.equals.right'') ds1 of
                                          (Inl e, ds2) \<Rightarrow> (Inl e, ds2)
                                        | (Inr right, ds2) \<Rightarrow>
                                            (Inr (VBool (js_strict_equals left right)), ds2)))))
                      else if ''let'' \<in> set keys \<and> ''in'' \<in> set keys then
                        (case get_prop expr ''let'' of
                           None \<Rightarrow> (Inl TypeError, ds)
                         | Some letValue \<Rightarrow>
                             (case get_prop expr ''in'' of
                                None \<Rightarrow> (Inl TypeError, ds)
                              | Some inValue \<Rightarrow>
                                  (case (if typeof_object letValue \<and> \<not> isArray letValue then
                                           (if letValue = JNull then (Inl TypeError, ds)
                                            else tryEvaluate_bindings tryEvaluate pathPrefix context
                                                   (entries_of letValue) context ds)
                                         else (Inr context, ds)) of
                                     (Inl e, ds1) \<Rightarrow> (Inl e, ds1)
                                   | (Inr newContext, ds1) \<Rightarrow>
                                       tryEvaluate inValue newContext (pathPrefix @ ''.in'') ds1)))
                      else (Inr (VStr (''<'' @ key @ ''>'')), ds)))
      in case attempt of
           (Inl e, ds') \<Rightarrow> (Inr (VStr ''<error>''), ds')
         | (Inr v, ds') \<Rightarrow> (Inr v, ds'))"
  by pat_completeness auto


termination
  apply (relation "measure (\<lambda>(e, c, p, s). esize e)")
  apply (simp only: wf_measure)
  apply (simp_all only: in_measure prod.case)
  apply (erule esize_item | erule esize_first' | (erule esize_first_item', assumption)
      | erule esize_prop | (erule esize_first_prop', assumption)
      | (erule esize_prop_entry, assumption))+
  done


declare tryEvaluate.simps [simp del]


section \<open>The display-tree builder (buildLogicTree)\<close>

text \<open>\<open>String(x)\<close> of a raw tree node, as a template string or a property key converts
  it.\<close>

fun jv_String :: "jv \<Rightarrow> string" and jv_join :: "jv list \<Rightarrow> string" where
  "jv_String JNull = ''null''"
| "jv_String (JBool b) = (if b then ''true'' else ''false'')"
| "jv_String (JNum n) = string_of_int n"
| "jv_String JNaN = ''NaN''"
| "jv_String (JStr s) = s"
| "jv_String (JArr xs) = jv_join xs"
| "jv_String (JObj kvs) = ''[object Object]''"
| "jv_join [] = []"
| "jv_join [x] = (if x = JNull then [] else jv_String x)"
| "jv_join (x # y # ys) = (if x = JNull then [] else jv_String x) @ '','' @ jv_join (y # ys)"

text \<open>\<open>inferType\<close> takes what a context lookup gives, None being \<open>undefined\<close>.\<close>

fun inferType :: "val option \<Rightarrow> string" where
  "inferType None = ''null''"
| "inferType (Some VNull) = ''null''"
| "inferType (Some (VStr _)) = ''string''"
| "inferType (Some (VNum _)) = ''number''"
| "inferType (Some VNaN) = ''number''"
| "inferType (Some (VBool _)) = ''boolean''"
| "inferType (Some (VArr _ _)) = ''array''"
| "inferType (Some (VObj _ _)) = ''operation''"

fun formatDisplayValue :: "val \<Rightarrow> string" where
  "formatDisplayValue VNull = ''null''"
| "formatDisplayValue (VStr s) = [CHR 0x22] @ s @ [CHR 0x22]"
| "formatDisplayValue (VBool b) = js_String (VBool b)"
| "formatDisplayValue (VNum n) = js_String (VNum n)"
| "formatDisplayValue VNaN = js_String VNaN"
| "formatDisplayValue (VArr a xs) = ''['' @ string_of_nat (length xs) @ '' items]''"
| "formatDisplayValue (VObj a kvs) = ''{...}''"

record TreeNodeData =
  node_label :: string
  node_type :: string
  node_value :: string
  raw :: jv
  covered :: "bool option"

text \<open>A node without the \<open>children\<close> property has None there.\<close>

datatype TreeNode = TreeNode (data: TreeNodeData) (children: "TreeNode list option")

text \<open>\<open>label || dflt\<close>: the empty string is falsy.\<close>

definition label_or :: "string \<Rightarrow> string \<Rightarrow> string" where
  "label_or label dflt = (if label = [] then dflt else label)"

definition set_node_value :: "string \<Rightarrow> TreeNode \<Rightarrow> TreeNode" where
  "set_node_value v node = TreeNode ((data node)\<lparr>node_value := v\<rparr>) (children node)"

type_synonym builder = "jv \<Rightarrow> ctx \<Rightarrow> string \<Rightarrow> string \<Rightarrow> dstate \<Rightarrow> TreeNode dresult"

text \<open>\<open>items.map((item, index) => buildLogicTree(item, context, label(index), tracker,
  prefix(index)))\<close>, from index \<open>idx\<close> on.\<close>

primrec build_items ::
  "builder \<Rightarrow> (nat \<Rightarrow> string) \<Rightarrow> (nat \<Rightarrow> string) \<Rightarrow> ctx \<Rightarrow> nat \<Rightarrow> jv list \<Rightarrow> dstate
   \<Rightarrow> (TreeNode list) dresult" where
  "build_items bld mkLabel mkPrefix context idx [] ds = (Inr [], ds)"
| "build_items bld mkLabel mkPrefix context idx (item # items) ds =
     (case bld item context (mkLabel idx) (mkPrefix idx) ds of
        (Inl e, ds1) \<Rightarrow> (Inl e, ds1)
      | (Inr node, ds1) \<Rightarrow>
          (case build_items bld mkLabel mkPrefix context (Suc idx) items ds1 of
             (Inl e, ds2) \<Rightarrow> (Inl e, ds2)
           | (Inr nodes, ds2) \<Rightarrow> (Inr (node # nodes), ds2)))"

text \<open>The bindings of a single-key \<open>let\<close>: each is evaluated in the outer context and
  built in that context extended by itself alone.\<close>

primrec build_let_bindings ::
  "builder \<Rightarrow> string \<Rightarrow> ctx \<Rightarrow> (string \<times> jv) list \<Rightarrow> dstate \<Rightarrow> (TreeNode list) dresult" where
  "build_let_bindings bld pathPrefix context [] ds = (Inr [], ds)"
| "build_let_bindings bld pathPrefix context (entry # entries) ds =
     (case tryEvaluate (snd entry) context (pathPrefix @ ''.let.'' @ fst entry) ds of
        (Inl e, ds1) \<Rightarrow> (Inl e, ds1)
      | (Inr evaluated, ds1) \<Rightarrow>
          (case bld (snd entry) (context(fst entry \<mapsto> evaluated)) (fst entry)
                  (pathPrefix @ ''.let.'' @ fst entry) ds1 of
             (Inl e, ds2) \<Rightarrow> (Inl e, ds2)
           | (Inr node, ds2) \<Rightarrow>
               (case build_let_bindings bld pathPrefix context entries ds2 of
                  (Inl e, ds3) \<Rightarrow> (Inl e, ds3)
                | (Inr nodes, ds3) \<Rightarrow> (Inr (node # nodes), ds3))))"

text \<open>The bindings of a flat \<open>let\<close>/\<open>in\<close>: each is evaluated in the context accumulated
  so far, added to it, and built in the result; the node's value is then overwritten.\<close>

primrec build_flat_bindings ::
  "builder \<Rightarrow> string \<Rightarrow> (string \<times> jv) list \<Rightarrow> ctx \<Rightarrow> dstate
   \<Rightarrow> (TreeNode list \<times> ctx) dresult" where
  "build_flat_bindings bld pathPrefix [] newContext ds = (Inr ([], newContext), ds)"
| "build_flat_bindings bld pathPrefix (entry # entries) newContext ds =
     (case tryEvaluate (snd entry) newContext (pathPrefix @ ''.let.'' @ fst entry) ds of
        (Inl e, ds1) \<Rightarrow> (Inl e, ds1)
      | (Inr evaluated, ds1) \<Rightarrow>
          (case bld (snd entry) (newContext(fst entry \<mapsto> evaluated)) (fst entry)
                  (pathPrefix @ ''.let.'' @ fst entry) ds1 of
             (Inl e, ds2) \<Rightarrow> (Inl e, ds2)
           | (Inr bindingNode, ds2) \<Rightarrow>
               (case build_flat_bindings bld pathPrefix entries
                       (newContext(fst entry \<mapsto> evaluated)) ds2 of
                  (Inl e, ds3) \<Rightarrow> (Inl e, ds3)
                | (Inr (nodes, finalContext), ds3) \<Rightarrow>
                    (Inr (set_node_value (formatDisplayValue evaluated) bindingNode # nodes,
                          finalContext), ds3))))"

text \<open>\<open>keys.map((key) => buildLogicTree(expr[key], context, key, tracker,
  pathPrefix + '.' + key))\<close>.\<close>

primrec build_keys ::
  "builder \<Rightarrow> jv \<Rightarrow> string \<Rightarrow> ctx \<Rightarrow> string list \<Rightarrow> dstate \<Rightarrow> (TreeNode list) dresult" where
  "build_keys bld expr pathPrefix context [] ds = (Inr [], ds)"
| "build_keys bld expr pathPrefix context (key # keys) ds =
     (case get_prop expr key of
        None \<Rightarrow> (Inl TypeError, ds)
      | Some v \<Rightarrow>
          (case bld v context key (pathPrefix @ ''.'' @ key) ds of
             (Inl e, ds1) \<Rightarrow> (Inl e, ds1)
           | (Inr node, ds1) \<Rightarrow>
               (case build_keys bld expr pathPrefix context keys ds1 of
                  (Inl e, ds2) \<Rightarrow> (Inl e, ds2)
                | (Inr nodes, ds2) \<Rightarrow> (Inr (node # nodes), ds2))))"

lemma build_items_cong [fundef_cong]:
  assumes "items = items'" and "ds = ds'" and "idx = idx'"
    and "\<And>x c l p s. x \<in> set items' \<Longrightarrow> bld x c l p s = bld' x c l p s"
  shows "build_items bld mkLabel mkPrefix context idx items ds
       = build_items bld' mkLabel mkPrefix context idx' items' ds'"
  unfolding assms(1,2,3) using assms(4)
proof (induction items' arbitrary: idx' ds')
  case Nil
  show ?case by simp
next
  case (Cons item items)
  have a: "\<And>c l p s. bld item c l p s = bld' item c l p s" using Cons.prems by simp
  have b: "\<And>i s. build_items bld mkLabel mkPrefix context i items s
              = build_items bld' mkLabel mkPrefix context i items s"
    using Cons.IH Cons.prems by simp
  show ?case by (simp add: a b cong: prod.case_cong sum.case_cong)
qed

lemma build_let_bindings_cong [fundef_cong]:
  assumes "entries = entries'" and "ds = ds'"
    and "\<And>x c l p s. x \<in> snd ` set entries' \<Longrightarrow> bld x c l p s = bld' x c l p s"
  shows "build_let_bindings bld pathPrefix context entries ds
       = build_let_bindings bld' pathPrefix context entries' ds'"
  unfolding assms(1,2) using assms(3)
proof (induction entries' arbitrary: ds')
  case Nil
  show ?case by simp
next
  case (Cons entry entries)
  have a: "\<And>c l p s. bld (snd entry) c l p s = bld' (snd entry) c l p s"
    using Cons.prems by simp
  have b: "\<And>s. build_let_bindings bld pathPrefix context entries s
              = build_let_bindings bld' pathPrefix context entries s"
    using Cons.IH Cons.prems by simp
  show ?case by (simp add: a b cong: prod.case_cong sum.case_cong)
qed

lemma build_flat_bindings_cong [fundef_cong]:
  assumes "entries = entries'" and "ds = ds'" and "newContext = newContext'"
    and "\<And>x c l p s. x \<in> snd ` set entries' \<Longrightarrow> bld x c l p s = bld' x c l p s"
  shows "build_flat_bindings bld pathPrefix entries newContext ds
       = build_flat_bindings bld' pathPrefix entries' newContext' ds'"
  unfolding assms(1,2,3) using assms(4)
proof (induction entries' arbitrary: newContext' ds')
  case Nil
  show ?case by simp
next
  case (Cons entry entries)
  have a: "\<And>c l p s. bld (snd entry) c l p s = bld' (snd entry) c l p s"
    using Cons.prems by simp
  have b: "\<And>n s. build_flat_bindings bld pathPrefix entries n s
              = build_flat_bindings bld' pathPrefix entries n s"
    using Cons.IH Cons.prems by simp
  show ?case by (simp add: a b cong: prod.case_cong sum.case_cong)
qed

lemma build_keys_cong [fundef_cong]:
  assumes "expr = expr'" and "keys = keys'" and "ds = ds'"
    and "\<And>x k c l p s. get_prop expr' k = Some x \<Longrightarrow> bld x c l p s = bld' x c l p s"
  shows "build_keys bld expr pathPrefix context keys ds
       = build_keys bld' expr' pathPrefix context keys' ds'"
  unfolding assms(1,2,3) using assms(4)
proof (induction keys' arbitrary: ds')
  case Nil
  show ?case by simp
next
  case (Cons key keys)
  have b: "\<And>s. build_keys bld expr' pathPrefix context keys s
              = build_keys bld' expr' pathPrefix context keys s"
    using Cons.IH Cons.prems by simp
  show ?case
  proof (cases "get_prop expr' key")
    case None
    then show ?thesis by simp
  next
    case (Some v)
    have a: "\<And>c l p s. bld v c l p s = bld' v c l p s" using Cons.prems Some by simp
    show ?thesis by (simp add: Some a b cong: prod.case_cong sum.case_cong)
  qed
qed

definition mkNode ::
  "string \<Rightarrow> string \<Rightarrow> string \<Rightarrow> jv \<Rightarrow> bool option \<Rightarrow> TreeNode list option \<Rightarrow> TreeNode" where
  "mkNode l t v r c ch =
     TreeNode \<lparr>node_label = l, node_type = t, node_value = v, raw = r, covered = c\<rparr> ch"

text \<open>\<open>keys.find((k) => k !== 'left' && k !== 'right')\<close>, None when nothing is found.\<close>

definition find_operation :: "string list \<Rightarrow> string option" where
  "find_operation keys = find (\<lambda>k. k \<noteq> ''left'' \<and> k \<noteq> ''right'') keys"

lemma esize_first_entry':
  "(k, v) = e \<Longrightarrow> x \<in> snd ` set (entries_of v) \<Longrightarrow> esize x < esize (JObj (e # others))"
  using esize_entry [of x v] esize_first [of v k others] by auto

function buildLogicTree :: "jv \<Rightarrow> ctx \<Rightarrow> string \<Rightarrow> string \<Rightarrow> dstate \<Rightarrow> TreeNode dresult" where
  "buildLogicTree expr context label pathPrefix ds =
     (let currentPath = generatePathId expr pathPrefix;
          covered = isCovered currentPath ds
      in case expr of
           JNull \<Rightarrow>
             (Inr (mkNode (label_or label ''null'') ''null'' ''null'' expr covered None), ds)
         | JStr s \<Rightarrow>
             (Inr (mkNode (label_or label ([CHR 0x22] @ s @ [CHR 0x22])) ''string''
                     ([CHR 0x22] @ s @ [CHR 0x22]) expr covered None), ds)
         | JNum n \<Rightarrow>
             (Inr (mkNode (label_or label (string_of_int n)) ''number'' (string_of_int n) expr
                     covered None), ds)
         | JNaN \<Rightarrow>
             (Inr (mkNode (label_or label ''NaN'') ''number'' ''NaN'' expr covered None), ds)
         | JBool b \<Rightarrow>
             (Inr (mkNode (label_or label (if b then ''true'' else ''false'')) ''boolean''
                     (if b then ''true'' else ''false'') expr covered None), ds)
         | JArr items \<Rightarrow>
             (case build_items buildLogicTree (\<lambda>index. ''['' @ string_of_nat index @ '']'')
                     (\<lambda>index. pathPrefix @ ''['' @ string_of_nat index @ '']'') context 0 items ds of
                (Inl e, ds1) \<Rightarrow> (Inl e, ds1)
              | (Inr nodes, ds1) \<Rightarrow>
                  (Inr (mkNode (label_or label ''array'') ''array''
                          (''['' @ string_of_nat (length items) @ '' items]'') expr covered
                          (Some nodes)), ds1))
         | JObj kvs \<Rightarrow>
             (case kvs of
                [] \<Rightarrow> (Inr (mkNode (label_or label ''{}'') ''object'' ''{}'' expr covered None), ds)
              | (key, value) # others \<Rightarrow>
                  (let keys = map fst kvs in
                    if others = [] \<and> key = ''get'' then
                      (let contextValue = context (jv_String value) in
                       (Inr (mkNode (''get '' @ jv_String value) (inferType contextValue)
                               (case contextValue of
                                  Some v \<Rightarrow> formatDisplayValue v
                                | None \<Rightarrow> ''<'' @ jv_String value @ ''>'')
                               expr covered None), ds))
                    else if others = [] \<and> key = ''let'' \<and> typeof_object value \<and> \<not> isArray value then
                      (if value = JNull then (Inl TypeError, ds)
                       else
                         (case build_let_bindings buildLogicTree pathPrefix context
                                 (entries_of value) ds of
                            (Inl e, ds1) \<Rightarrow> (Inl e, ds1)
                          | (Inr bindings, ds1) \<Rightarrow>
                              (Inr (mkNode ''let'' ''let-binding''
                                      (string_of_nat (length (entries_of value)) @ '' bindings'')
                                      expr covered (Some bindings)), ds1)))
                    else if others = [] \<and> key = ''in'' then
                      (case tryEvaluate value context (pathPrefix @ ''.in'') ds of
                         (Inl e, ds1) \<Rightarrow> (Inl e, ds1)
                       | (Inr evaluated, ds1) \<Rightarrow>
                           (case buildLogicTree value context ''result'' (pathPrefix @ ''.in'') ds1 of
                              (Inl e, ds2) \<Rightarrow> (Inl e, ds2)
                            | (Inr child, ds2) \<Rightarrow>
                                (Inr (mkNode ''in'' ''expression'' (formatDisplayValue evaluated) expr
                                        covered (Some [child])), ds2)))
                    else if others = [] \<and> key = ''if'' then
                      (case tryEvaluate value context (pathPrefix @ ''.if'') ds of
                         (Inl e, ds1) \<Rightarrow> (Inl e, ds1)
                       | (Inr evaluated, ds1) \<Rightarrow>
                           (case buildLogicTree value context ''condition'' (pathPrefix @ ''.if'') ds1 of
                              (Inl e, ds2) \<Rightarrow> (Inl e, ds2)
                            | (Inr child, ds2) \<Rightarrow>
                                (Inr (mkNode ''if'' ''conditional'' (formatDisplayValue evaluated) expr
                                        covered (Some [child])), ds2)))
                    else if others = [] \<and> key = ''then'' then
                      (case tryEvaluate value context (pathPrefix @ ''.then'') ds of
                         (Inl e, ds1) \<Rightarrow> (Inl e, ds1)
                       | (Inr evaluated, ds1) \<Rightarrow>
                           (case buildLogicTree value context ''result'' (pathPrefix @ ''.then'') ds1 of
                              (Inl e, ds2) \<Rightarrow> (Inl e, ds2)
                            | (Inr child, ds2) \<Rightarrow>
                                (Inr (mkNode ''then'' ''expression'' (formatDisplayValue evaluated) expr
                                        covered (Some [child])), ds2)))
                    else if others = [] \<and> key = ''else'' then
                      (case tryEvaluate value context (pathPrefix @ ''.else'') ds of
                         (Inl e, ds1) \<Rightarrow> (Inl e, ds1)
                       | (Inr evaluated, ds1) \<Rightarrow>
                           (case buildLogicTree value context ''result'' (pathPrefix @ ''.else'') ds1 of
                              (Inl e, ds2) \<Rightarrow> (Inl e, ds2)
                            | (Inr child, ds2) \<Rightarrow>
                                (Inr (mkNode ''else'' ''expression'' (formatDisplayValue evaluated) expr
                                        covered (Some [child])), ds2)))
                    else if others = [] \<and> key \<in> set [''uppercase'', ''lowercase'', ''not'', ''length''] then
                      (case tryEvaluate expr context pathPrefix ds of
                         (Inl e, ds1) \<Rightarrow> (Inl e, ds1)
                       | (Inr evaluated, ds1) \<Rightarrow>
                           (case buildLogicTree value context ''argument'' (pathPrefix @ ''.'' @ key) ds1 of
                              (Inl e, ds2) \<Rightarrow> (Inl e, ds2)
                            | (Inr child, ds2) \<Rightarrow>
                                (Inr (mkNode key ''operation'' (formatDisplayValue evaluated) expr
                                        covered (Some [child])), ds2)))
                    else if others = [] \<and> key = ''concat'' \<and> isArray value then
                      (case value of
                         JArr items \<Rightarrow>
                           (case tryEvaluate expr context pathPrefix ds of
                              (Inl e, ds1) \<Rightarrow> (Inl e, ds1)
                            | (Inr evaluated, ds1) \<Rightarrow>
                                (case build_items buildLogicTree
                                        (\<lambda>index. ''item '' @ string_of_nat index)
                                        (\<lambda>index. pathPrefix @ ''.concat['' @ string_of_nat index @ '']'')
                                        context 0 items ds1 of
                                   (Inl e, ds2) \<Rightarrow> (Inl e, ds2)
                                 | (Inr nodes, ds2) \<Rightarrow>
                                     (Inr (mkNode ''concat'' ''operation''
                                             (formatDisplayValue evaluated) expr covered
                                             (Some nodes)), ds2)))
                       | _ \<Rightarrow> (Inl TypeError, ds))
                    else if ''left'' \<in> set keys \<and> ''right'' \<in> set keys
                            \<and> find_operation keys \<noteq> None \<and> find_operation keys \<noteq> Some [] then
                      (case tryEvaluate expr context pathPrefix ds of
                         (Inl e, ds1) \<Rightarrow> (Inl e, ds1)
                       | (Inr evaluated, ds1) \<Rightarrow>
                           (case get_prop expr ''left'' of
                              None \<Rightarrow> (Inl TypeError, ds1)
                            | Some leftExpr \<Rightarrow>
                                (case buildLogicTree leftExpr context ''left'' (pathPrefix @ ''.left'') ds1 of
                                   (Inl e, ds2) \<Rightarrow> (Inl e, ds2)
                                 | (Inr leftNode, ds2) \<Rightarrow>
                                     (case get_prop expr ''right'' of
                                        None \<Rightarrow> (Inl TypeError, ds2)
                                      | Some rightExpr \<Rightarrow>
                                          (case buildLogicTree rightExpr context ''right''
                                                  (pathPrefix @ ''.right'') ds2 of
                                             (Inl e, ds3) \<Rightarrow> (Inl e, ds3)
                                           | (Inr rightNode, ds3) \<Rightarrow>
                                               (Inr (mkNode (the (find_operation keys)) ''operation''
                                                       (formatDisplayValue evaluated) expr covered
                                                       (Some [leftNode, rightNode])), ds3))))))
                    else if ''let'' \<in> set keys \<and> ''in'' \<in> set keys then
                      (case get_prop expr ''let'' of
                         None \<Rightarrow> (Inl TypeError, ds)
                       | Some letValue \<Rightarrow>
                           (case get_prop expr ''in'' of
                              None \<Rightarrow> (Inl TypeError, ds)
                            | Some inValue \<Rightarrow>
                                (case (if typeof_object letValue \<and> \<not> isArray letValue then
                                         (if letValue = JNull then (Inl TypeError, ds)
                                          else build_flat_bindings buildLogicTree pathPrefix
                                                 (entries_of letValue) context ds)
                                       else (Inr ([], context), ds)) of
                                   (Inl e, ds1) \<Rightarrow> (Inl e, ds1)
                                 | (Inr (bindings, newContext), ds1) \<Rightarrow>
                                     (case tryEvaluate inValue newContext (pathPrefix @ ''.in'') ds1 of
                                        (Inl e, ds2) \<Rightarrow> (Inl e, ds2)
                                      | (Inr finalValue, ds2) \<Rightarrow>
                                          (case buildLogicTree inValue newContext ''in''
                                                  (pathPrefix @ ''.in'') ds2 of
                                             (Inl e, ds3) \<Rightarrow> (Inl e, ds3)
                                           | (Inr inNode, ds3) \<Rightarrow>
                                               (Inr (mkNode ''let/in'' ''let-in''
                                                       (formatDisplayValue finalValue) expr covered
                                                       (Some (bindings @
                                                          [set_node_value
                                                             (formatDisplayValue finalValue) inNode]))),
                                                ds3))))))
                    else
                      (case build_keys buildLogicTree expr pathPrefix context keys ds of
                         (Inl e, ds1) \<Rightarrow> (Inl e, ds1)
                       | (Inr nodes, ds1) \<Rightarrow>
                           (Inr (mkNode (label_or label ''object'') ''object''
                                   (''{'' @ string_of_nat (length keys) @ '' keys}'') expr covered
                                   (Some nodes)), ds1)))))"
  by pat_completeness auto
termination
  apply (relation "measure (\<lambda>(e, c, l, p, s). esize e)")
  apply (simp only: wf_measure)
  apply (simp_all only: in_measure prod.case)
  apply (erule esize_item | erule esize_first' | (erule esize_first_item', assumption)
      | erule esize_prop | (erule esize_first_prop', assumption)
      | (erule esize_first_entry', assumption)
      | (erule esize_prop_entry, assumption))+
  done

declare buildLogicTree.simps [simp del]


section \<open>The component (ExpressionTree)\<close>

text \<open>The coverage pass of the component: a new tracker, one \<open>tryEvaluate\<close> from
  \<open>'root'\<close>.\<close>

definition newTracker :: dstate where
  "newTracker = \<lparr>coveredPaths = Some {}, heap_next = 0\<rparr>"

definition noInputs :: ctx where
  "noInputs = Map.empty"

definition coveragePass :: "jv \<Rightarrow> ctx \<Rightarrow> val dresult" where
  "coveragePass expr inputDefaults = tryEvaluate expr inputDefaults ''root'' newTracker"

text \<open>The tree is then built against the tracker the pass has left.\<close>

definition displayTree :: "jv \<Rightarrow> ctx \<Rightarrow> TreeNode dresult" where
  "displayTree expr inputDefaults =
     buildLogicTree expr inputDefaults ''root'' ''root'' (snd (coveragePass expr inputDefaults))"

section \<open>Properties of the strict evaluator\<close>

text \<open>The type and content of a value, without the identity of its arrays and objects.\<close>

primrec content_of :: "val \<Rightarrow> jv" where
  "content_of VNull = JNull"
| "content_of (VBool b) = JBool b"
| "content_of (VNum n) = JNum n"
| "content_of VNaN = JNaN"
| "content_of (VStr s) = JStr s"
| "content_of (VArr a xs) = JArr (map content_of xs)"
| "content_of (VObj a kvs) = JObj (map (map_prod id content_of) kvs)"

fun is_primitive :: "val \<Rightarrow> bool" where
  "is_primitive (VArr _ _) = False"
| "is_primitive (VObj _ _) = False"
| "is_primitive _ = True"

lemma get_prop_SomeD:
  "get_prop a k = Some v \<Longrightarrow> has_key a k \<and> js_truthy a \<and> typeof_object a \<and> \<not> isArray a \<and> a \<noteq> JNull"
  by (cases a) (auto dest: map_of_SomeD intro: rev_image_eqI)

lemma strict_equals_primitive:
  "is_primitive l \<or> is_primitive r \<Longrightarrow> l \<noteq> VNaN \<Longrightarrow> js_strict_equals l r = (l = r)"
  by (cases l; cases r) auto

lemma strict_equals_NaN: "\<not> js_strict_equals VNaN r"
  by (cases r) simp_all

lemma strict_equals_NaN_right: "\<not> js_strict_equals l VNaN"
  by (cases l) simp_all

lemmas strict_simps = evaluate.simps dispatch_def executeLet_def executeConcat_def
  executeUppercase_def executeLowercase_def executeLength_def executeSubstring_def
  executeAnd_def executeOr_def executeNot_def executeEquals_def executeIf_def
  extractValue_def values_of_def map_evaluate_def startsWith_dollar_def initial_state_def
  set_variable_def restore_variables_def setter_reached_def inherited_def own_property_def
  object_prototype_names_def array_prototype_names_def fresh_address_def

subsection \<open>A successful evaluation leaves the scope object as it was\<close>

text \<open>This holds where the name \<open>__proto__\<close> is out of play: no mapping anywhere in the
  expression has a key of that name, and the scope object has no variable of that name.\<close>

lemma esize_pair: "kv \<in> set kvs \<Longrightarrow> esize (snd kv) < esize (JObj kvs)"
  unfolding esize_def using pair_size_less [of "fst kv" "snd kv" kvs] by simp

function no_proto_key :: "jv \<Rightarrow> bool" where
  "no_proto_key e =
     (case e of
        JArr items \<Rightarrow> (\<forall>x \<in> set items. no_proto_key x)
      | JObj kvs \<Rightarrow> (\<forall>kv \<in> set kvs. fst kv \<noteq> ''__proto__'' \<and> no_proto_key (snd kv))
      | _ \<Rightarrow> True)"
  by pat_completeness auto
termination
  apply (relation "measure esize")
  apply (simp only: wf_measure)
  apply (simp_all only: in_measure)
  apply (erule esize_item | erule esize_pair)+
  done

declare no_proto_key.simps [simp del]

definition plain :: "istate \<Rightarrow> bool" where
  "plain st = (variables st ''__proto__'' = None)"

definition scope :: "istate \<Rightarrow> (string \<rightharpoonup> val) \<times> proto" where
  "scope st = (variables st, prototype st)"


lemma plain_next_addr [simp]: "plain (st\<lparr>next_addr := n\<rparr>) = plain st"
  by (simp add: plain_def)

lemma scope_next_addr [simp]: "scope (st\<lparr>next_addr := n\<rparr>) = scope st"
  by (simp add: scope_def)

lemma plain_scope: "scope st' = scope st \<Longrightarrow> plain st \<Longrightarrow> plain st'"
  by (simp add: scope_def plain_def)

lemma no_proto_key_item: "no_proto_key (JArr items) \<Longrightarrow> x \<in> set items \<Longrightarrow> no_proto_key x"
  by (subst (asm) no_proto_key.simps) simp

lemma no_proto_key_pair:
  "no_proto_key (JObj kvs) \<Longrightarrow> kv \<in> set kvs \<Longrightarrow> fst kv \<noteq> ''__proto__'' \<and> no_proto_key (snd kv)"
  by (subst (asm) no_proto_key.simps) simp

lemma no_proto_key_prop: "no_proto_key a \<Longrightarrow> get_prop a k = Some x \<Longrightarrow> no_proto_key x"
  by (cases a) (auto dest!: map_of_SomeD dest: no_proto_key_pair)

lemma no_proto_key_values:
  "no_proto_key args \<Longrightarrow> values_of args = Some (JArr items) \<Longrightarrow> x \<in> set items \<Longrightarrow> no_proto_key x"
  unfolding values_of_def by (auto split: if_splits dest: no_proto_key_prop no_proto_key_item)

definition keeps :: "evaluator \<Rightarrow> jv \<Rightarrow> bool" where
  "keeps ev e =
     (no_proto_key e \<longrightarrow>
       (\<forall>st v st'. plain st \<longrightarrow> ev e st = (Inr v, st') \<longrightarrow> scope st' = scope st))"

lemma keepsD:
  "keeps ev e \<Longrightarrow> no_proto_key e \<Longrightarrow> plain st \<Longrightarrow> ev e st = (Inr v, st') \<Longrightarrow> scope st' = scope st"
  unfolding keeps_def by blast

lemma evaluate_items_keeps:
  assumes "\<And>x. x \<in> set items \<Longrightarrow> keeps ev x \<and> no_proto_key x"
    and "plain st" and "evaluate_items ev items st = (Inr vs, st')"
  shows "scope st' = scope st"
  using assms
proof (induction items arbitrary: st vs)
  case Nil
  then show ?case by simp
next
  case (Cons item items)
  from Cons.prems(3) obtain v st1 vs1 where
    a: "ev item st = (Inr v, st1)" and b: "evaluate_items ev items st1 = (Inr vs1, st')"
    by (auto split: prod.splits sum.splits)
  have s1: "scope st1 = scope st" using Cons.prems(1) [of item] Cons.prems(2) a by (auto dest: keepsD)
  then have "plain st1" using Cons.prems(2) by (rule plain_scope)
  then have "scope st' = scope st1" using Cons.IH [OF _ _ b] Cons.prems(1) by simp
  with s1 show ?case by simp
qed

lemma map_evaluate_keeps:
  assumes "\<And>x. x \<in> set items \<Longrightarrow> keeps ev x \<and> no_proto_key x"
    and "plain st" and "map_evaluate ev items st = (Inr r, st')"
  shows "scope st' = scope st"
proof -
  from assms(3) obtain vs where
    "evaluate_items ev items (st\<lparr>next_addr := Suc (next_addr st)\<rparr>) = (Inr vs, st')"
    unfolding map_evaluate_def by (auto split: prod.splits sum.splits)
  from evaluate_items_keeps [OF assms(1) _ this] assms(2) show ?thesis by simp
qed

lemma prop_keeps:
  assumes "\<And>x. esize x \<le> esize args \<Longrightarrow> keeps ev x" and "get_prop args k = Some x"
  shows "keeps ev x"
  using assms(1) [of x] esize_prop [OF assms(2)] by simp

lemma prop_kept:
  assumes "\<And>x. esize x \<le> esize args \<Longrightarrow> keeps ev x" and "no_proto_key args"
    and "get_prop args k = Some x" and "plain s" and "ev x s = (Inr w, s')"
  shows "scope s' = scope s \<and> plain s'"
proof -
  have "keeps ev x" using assms(1,3) by (rule prop_keeps)
  moreover have "no_proto_key x" using assms(2,3) by (rule no_proto_key_prop)
  ultimately have "scope s' = scope s" using assms(4,5) by (rule keepsD)
  then show ?thesis using assms(4) plain_scope by blast
qed

lemma values_keeps:
  assumes "\<And>x. esize x \<le> esize args \<Longrightarrow> keeps ev x" and "no_proto_key args"
    and "values_of args = Some (JArr items)" and "x \<in> set items"
  shows "keeps ev x \<and> no_proto_key x"
proof -
  have "size (JArr items) \<le> size args" using assms(3) by (rule values_of_size)
  moreover have "size x < size (JArr items)" using assms(4) by (rule set_size_less)
  ultimately have "keeps ev x" using assms(1) [of x] by (simp add: esize_def)
  moreover have "no_proto_key x" using assms(2,3,4) by (rule no_proto_key_values)
  ultimately show ?thesis by simp
qed


lemma set_variable_other:
  "key \<noteq> ''__proto__'' \<Longrightarrow> set_variable key v st = st\<lparr>variables := (variables st)(key \<mapsto> v)\<rparr>"
  by (simp add: set_variable_def)

lemma restore_variables_plain:
  "saved ''__proto__'' = None \<Longrightarrow> restore_variables saved st = st\<lparr>variables := saved\<rparr>"
  by (simp add: restore_variables_def fun_upd_idem)

lemma restore_variables_others:
  "name \<noteq> ''__proto__'' \<Longrightarrow> variables (restore_variables saved st) name = saved name"
  by (simp add: restore_variables_def set_variable_def Let_def split: option.splits val.splits)

lemma let_bindings_keeps:
  assumes "\<And>kv. kv \<in> set entries \<Longrightarrow>
             fst kv \<noteq> ''__proto__'' \<and> keeps ev (snd kv) \<and> no_proto_key (snd kv)"
    and "plain st" and "let_bindings ev entries st = (Inr u, st')"
  shows "prototype st' = prototype st \<and> plain st'"
  using assms
proof (induction entries arbitrary: st)
  case Nil
  then show ?case by simp
next
  case (Cons entry entries)
  have rest: "\<And>kv. kv \<in> set entries \<Longrightarrow>
             fst kv \<noteq> ''__proto__'' \<and> keeps ev (snd kv) \<and> no_proto_key (snd kv)"
    using Cons.prems(1) by simp
  show ?case
  proof (cases "fst entry = ''in''")
    case True
    then have "let_bindings ev entries st = (Inr u, st')" using Cons.prems(3) by simp
    with Cons.IH [OF rest Cons.prems(2)] show ?thesis by simp
  next
    case False
    from Cons.prems(3) False obtain v st1 where
      a: "ev (snd entry) st = (Inr v, st1)"
      and b: "let_bindings ev entries (set_variable (fst entry) v st1) = (Inr u, st')"
      by (auto split: prod.splits sum.splits)
    have e: "fst entry \<noteq> ''__proto__''" "keeps ev (snd entry)" "no_proto_key (snd entry)"
      using Cons.prems(1) [of entry] by simp_all
    have s1: "scope st1 = scope st" using e(2,3) Cons.prems(2) a by (rule keepsD)
    have p1: "plain st1" using s1 Cons.prems(2) by (rule plain_scope)
    let ?st2 = "set_variable (fst entry) v st1"
    have p2: "plain ?st2" using p1 e(1) by (simp add: set_variable_other plain_def)
    have q2: "prototype ?st2 = prototype st" using s1 e(1) by (simp add: set_variable_other scope_def)
    from Cons.IH [OF rest p2 b] q2 show ?thesis by simp
  qed
qed

lemma executeLet_keeps:
  assumes "\<And>x. esize x \<le> esize args \<Longrightarrow> keeps ev x" and "no_proto_key args"
    and "plain st" and "executeLet ev args st = (Inr v, st')"
  shows "scope st' = scope st"
proof -
  from assms(4) obtain inExpression u st1 st2 where
    i: "get_prop args ''in'' = Some inExpression"
    and b: "let_bindings ev (entries_of args) st = (Inr u, st1)"
    and r: "ev inExpression st1 = (Inr v, st2)"
    and e: "st' = restore_variables (variables st) st2"
    unfolding executeLet_def
    by (auto simp: Let_def split: if_splits option.splits prod.splits sum.splits)
  from i obtain kvs where kvs: "args = JObj kvs" by (cases args) simp_all
  have "\<And>kv. kv \<in> set (entries_of args) \<Longrightarrow>
          fst kv \<noteq> ''__proto__'' \<and> keeps ev (snd kv) \<and> no_proto_key (snd kv)"
  proof -
    fix kv assume m: "kv \<in> set (entries_of args)"
    then have "kv \<in> set kvs" using kvs by simp
    then have "fst kv \<noteq> ''__proto__'' \<and> no_proto_key (snd kv)"
      using assms(2) unfolding kvs by (intro no_proto_key_pair)
    moreover have "esize (snd kv) < esize args" using m by (intro esize_entry) simp
    then have "keeps ev (snd kv)" using assms(1) by simp
    ultimately show "fst kv \<noteq> ''__proto__'' \<and> keeps ev (snd kv) \<and> no_proto_key (snd kv)"
      by simp
  qed
  from let_bindings_keeps [OF this assms(3) b]
  have q1: "prototype st1 = prototype st" and p1: "plain st1" by simp_all
  have "scope st2 = scope st1 \<and> plain st2" using assms(1,2) i p1 r by (rule prop_kept)
  then have "prototype st2 = prototype st" using q1 by (simp add: scope_def)
  moreover have "st' = st2\<lparr>variables := variables st\<rparr>"
    using e assms(3) by (simp add: restore_variables_plain plain_def)
  ultimately show ?thesis by (simp add: scope_def)
qed

lemma executeConcat_keeps:
  assumes "\<And>x. esize x \<le> esize args \<Longrightarrow> keeps ev x" and "no_proto_key args"
    and "plain st" and "executeConcat ev args st = (Inr v, st')"
  shows "scope st' = scope st"
proof -
  from assms(4) obtain items r where
    v: "values_of args = Some (JArr items)" and m: "map_evaluate ev items st = (Inr r, st')"
    unfolding executeConcat_def by (auto split: option.splits jv.splits prod.splits sum.splits)
  have "keeps ev x \<and> no_proto_key x" if "x \<in> set items" for x
    using assms(1,2) v that by (rule values_keeps)
  then show ?thesis using assms(3) m by (rule map_evaluate_keeps)
qed

lemma executeAnd_keeps:
  assumes "\<And>x. esize x \<le> esize args \<Longrightarrow> keeps ev x" and "no_proto_key args"
    and "plain st" and "executeAnd ev args st = (Inr v, st')"
  shows "scope st' = scope st"
proof -
  from assms(4) obtain items r where
    v: "values_of args = Some (JArr items)" and m: "map_evaluate ev items st = (Inr r, st')"
    unfolding executeAnd_def by (auto split: option.splits jv.splits prod.splits sum.splits)
  have "keeps ev x \<and> no_proto_key x" if "x \<in> set items" for x
    using assms(1,2) v that by (rule values_keeps)
  then show ?thesis using assms(3) m by (rule map_evaluate_keeps)
qed

lemma executeOr_keeps:
  assumes "\<And>x. esize x \<le> esize args \<Longrightarrow> keeps ev x" and "no_proto_key args"
    and "plain st" and "executeOr ev args st = (Inr v, st')"
  shows "scope st' = scope st"
proof -
  from assms(4) obtain items r where
    v: "values_of args = Some (JArr items)" and m: "map_evaluate ev items st = (Inr r, st')"
    unfolding executeOr_def by (auto split: option.splits jv.splits prod.splits sum.splits)
  have "keeps ev x \<and> no_proto_key x" if "x \<in> set items" for x
    using assms(1,2) v that by (rule values_keeps)
  then show ?thesis using assms(3) m by (rule map_evaluate_keeps)
qed


lemma extractValue_keeps:
  assumes "\<And>x. esize x \<le> esize args \<Longrightarrow> keeps ev x" and "no_proto_key args"
    and "plain st" and "extractValue ev args st = (Inr v, st')"
  shows "scope st' = scope st"
proof -
  from assms(4) consider
      (direct) "ev args st = (Inr v, st')"
    | (named) x where "get_prop args ''value'' = Some x" "ev x st = (Inr v, st')"
    unfolding extractValue_def by (auto split: if_splits option.splits)
  then show ?thesis
  proof cases
    case direct
    have "keeps ev args" using assms(1) [of args] by simp
    then show ?thesis using assms(2,3) direct by (rule keepsD)
  next
    case named
    have "scope st' = scope st \<and> plain st'"
      using assms(1,2) named(1) assms(3) named(2) by (rule prop_kept)
    then show ?thesis by simp
  qed
qed

lemma executeSubstring_keeps:
  assumes "\<And>x. esize x \<le> esize args \<Longrightarrow> keeps ev x" and "no_proto_key args"
    and "plain st" and "executeSubstring ev args st = (Inr v, st')"
  shows "scope st' = scope st"
proof -
  have p: "\<And>k x s w s'. get_prop args k = Some x \<Longrightarrow> plain s \<Longrightarrow> ev x s = (Inr w, s')
      \<Longrightarrow> scope s' = scope s \<and> plain s'"
    using assms(1,2) by (rule prop_kept)
  from assms(4) obtain ve se vl s1 sv s2 where
    v: "get_prop args ''value'' = Some ve" "ev ve st = (Inr vl, s1)" and
    s: "get_prop args ''start'' = Some se" "ev se s1 = (Inr sv, s2)" and
    e: "s2 = st' \<or> (\<exists>ee endVal. get_prop args ''end'' = Some ee \<and> ev ee s2 = (Inr endVal, st'))"
    unfolding executeSubstring_def
    by (auto split: if_splits option.splits prod.splits sum.splits)
  have a: "scope s1 = scope st \<and> plain s1" using v(1) assms(3) v(2) by (rule p)
  then have b: "scope s2 = scope s1 \<and> plain s2" using s p by blast
  then have "scope st' = scope s2" using e p by blast
  with a b show ?thesis by simp
qed

lemma executeEquals_keeps:
  assumes "\<And>x. esize x \<le> esize args \<Longrightarrow> keeps ev x" and "no_proto_key args"
    and "plain st" and "executeEquals ev args st = (Inr v, st')"
  shows "scope st' = scope st"
proof -
  have p: "\<And>k x s w s'. get_prop args k = Some x \<Longrightarrow> plain s \<Longrightarrow> ev x s = (Inr w, s')
      \<Longrightarrow> scope s' = scope s \<and> plain s'"
    using assms(1,2) by (rule prop_kept)
  from assms(4) obtain le re l s1 r where
    l: "get_prop args ''left'' = Some le" "ev le st = (Inr l, s1)" and
    r: "get_prop args ''right'' = Some re" "ev re s1 = (Inr r, st')"
    unfolding executeEquals_def
    by (auto split: if_splits option.splits prod.splits sum.splits)
  have a: "scope s1 = scope st \<and> plain s1" using l(1) assms(3) l(2) by (rule p)
  then have "scope st' = scope s1" using r p by blast
  with a show ?thesis by simp
qed

lemma executeIf_keeps:
  assumes "\<And>x. esize x \<le> esize args \<Longrightarrow> keeps ev x" and "no_proto_key args"
    and "plain st" and "executeIf ev args st = (Inr v, st')"
  shows "scope st' = scope st"
proof -
  have p: "\<And>k x s w s'. get_prop args k = Some x \<Longrightarrow> plain s \<Longrightarrow> ev x s = (Inr w, s')
      \<Longrightarrow> scope s' = scope s \<and> plain s'"
    using assms(1,2) by (rule prop_kept)
  from assms(4) obtain ce condition s1 where
    c: "get_prop args ''condition'' = Some ce" "ev ce st = (Inr condition, s1)" and
    b: "s1 = st' \<or> (\<exists>be. get_prop args ''then'' = Some be \<and> ev be s1 = (Inr v, st'))
        \<or> (\<exists>be. get_prop args ''else'' = Some be \<and> ev be s1 = (Inr v, st'))"
    unfolding executeIf_def
    by (auto split: if_splits option.splits prod.splits sum.splits)
  have a: "scope s1 = scope st \<and> plain s1" using c(1) assms(3) c(2) by (rule p)
  then have "scope st' = scope s1" using b p by blast
  with a show ?thesis by simp
qed

lemma dispatch_keeps:
  assumes "\<And>x. esize x \<le> esize args \<Longrightarrow> keeps ev x" and "no_proto_key args"
    and "plain st" and "dispatch ev name args st = (Inr v, st')"
  shows "scope st' = scope st"
proof -
  note k = assms(1,2,3)
  from assms(4) consider
      (l) "executeLet ev args st = (Inr v, st')"
    | (c) "executeConcat ev args st = (Inr v, st')"
    | (a) "executeAnd ev args st = (Inr v, st')"
    | (o) "executeOr ev args st = (Inr v, st')"
    | (s) "executeSubstring ev args st = (Inr v, st')"
    | (e) "executeEquals ev args st = (Inr v, st')"
    | (i) "executeIf ev args st = (Inr v, st')"
    | (x) w where "extractValue ev args st = (Inr w, st')"
    unfolding dispatch_def executeUppercase_def executeLowercase_def executeLength_def
      executeNot_def
    by (auto split: if_splits prod.splits sum.splits)
  then show ?thesis
  proof cases
    case l with k show ?thesis by (rule executeLet_keeps)
  next
    case c with k show ?thesis by (rule executeConcat_keeps)
  next
    case a with k show ?thesis by (rule executeAnd_keeps)
  next
    case o with k show ?thesis by (rule executeOr_keeps)
  next
    case s with k show ?thesis by (rule executeSubstring_keeps)
  next
    case e with k show ?thesis by (rule executeEquals_keeps)
  next
    case i with k show ?thesis by (rule executeIf_keeps)
  next
    case x with k show ?thesis by (rule extractValue_keeps)
  qed
qed

lemma evaluate_keeps: "keeps evaluate e"
proof (induction e rule: measure_induct_rule [where f = esize])
  case (less e)
  show ?case
  proof (cases e)
    case (JArr items)
    show ?thesis unfolding keeps_def
    proof (intro impI allI)
      fix st v st'
      assume n: "no_proto_key e" and p: "plain st" and r: "evaluate e st = (Inr v, st')"
      have k: "keeps evaluate x \<and> no_proto_key x" if "x \<in> set items" for x
        using less [of x] JArr esize_item [OF that] no_proto_key_item [OF n [unfolded JArr] that]
        by simp
      from r obtain m where "map_evaluate evaluate items st = (Inr m, st')"
        unfolding JArr by (subst (asm) evaluate.simps) (auto split: prod.splits sum.splits)
      with k p show "scope st' = scope st" by (rule map_evaluate_keeps)
    qed
  next
    case (JObj kvs)
    show ?thesis
    proof (cases kvs)
      case Nil
      then show ?thesis unfolding keeps_def JObj by (simp add: evaluate.simps)
    next
      case (Cons kv others)
      obtain name args where kv: "kv = (name, args)" by (cases kv)
      show ?thesis unfolding keeps_def
      proof (intro impI allI)
        fix st v st'
        assume n: "no_proto_key e" and p: "plain st" and r: "evaluate e st = (Inr v, st')"
        have k: "\<And>x. esize x \<le> esize args \<Longrightarrow> keeps evaluate x"
          using less [of _] esize_first [of args name others] unfolding JObj Cons kv by simp
        have na: "no_proto_key args"
          using no_proto_key_pair [OF n [unfolded JObj Cons kv], of "(name, args)"] by simp
        from r have "dispatch evaluate name args st = (Inr v, st')"
          unfolding JObj Cons kv by (subst (asm) evaluate.simps) simp
        with k na p show "scope st' = scope st" by (rule dispatch_keeps)
      qed
    qed
  next
    case (JStr s)
    show ?thesis unfolding keeps_def JStr
      by (auto simp: evaluate.simps Let_def split: if_splits option.splits found.splits)
  qed (auto simp: keeps_def evaluate.simps)
qed


text \<open>
  Claim C1 (as amended). Whenever the strict evaluator succeeds on a \<open>let\<close> expression,
  every variable of the scope other than one named \<open>__proto__\<close> is bound afterwards as
  it was before the call. When moreover no mapping inside the \<open>let\<close> has a key named
  \<open>__proto__\<close> and the scope has no variable of that name, the scope object afterwards
  is exactly the one before the call, its variables and its prototype: no binding of the
  \<open>let\<close> leaks, and every binding of the enclosing scopes is intact.
\<close>

theorem let_restores_scope_on_success:
  assumes "evaluate (JObj ((''let'', args) # others)) E = (Inr v, E')"
  shows "(\<forall>name. name \<noteq> ''__proto__'' \<longrightarrow> variables E' name = variables E name)
       \<and> (no_proto_key args \<longrightarrow> variables E ''__proto__'' = None \<longrightarrow>
            variables E' = variables E \<and> prototype E' = prototype E)"
proof -
  from assms have l: "executeLet evaluate args E = (Inr v, E')"
    by (subst (asm) evaluate.simps) (simp add: dispatch_def)
  then obtain st2 where "E' = restore_variables (variables E) st2"
    unfolding executeLet_def
    by (auto simp: Let_def split: if_splits option.splits prod.splits sum.splits)
  then have a: "\<forall>name. name \<noteq> ''__proto__'' \<longrightarrow> variables E' name = variables E name"
    by (simp add: restore_variables_others)
  have "scope E' = scope E" if "no_proto_key args" "variables E ''__proto__'' = None"
    using evaluate_keeps that(1) _ l by (rule executeLet_keeps) (simp add: plain_def that(2))
  then have "no_proto_key args \<longrightarrow> variables E ''__proto__'' = None \<longrightarrow>
            variables E' = variables E \<and> prototype E' = prototype E"
    by (simp add: scope_def)
  with a show ?thesis by simp
qed

theorem let_restores_scope_on_success_witness:
  "evaluate (JObj [(''let'', JObj [(''a'', JNum 1), (''in'', JStr ''$a'')])])
     \<lparr>variables = [''a'' \<mapsto> VNum 7], prototype = ObjectPrototype, next_addr = 0\<rparr>
     = (Inr (VNum 1), \<lparr>variables = [''a'' \<mapsto> VNum 7], prototype = ObjectPrototype, next_addr = 0\<rparr>)
   \<and> no_proto_key (JObj [(''a'', JNum 1), (''in'', JStr ''$a'')])
   \<and> variables \<lparr>variables = [''a'' \<mapsto> VNum 7], prototype = ObjectPrototype, next_addr = 0\<rparr>
         ''__proto__'' = None
   \<and> variables \<lparr>variables = [''a'' \<mapsto> VNum 7], prototype = ObjectPrototype, next_addr = 0\<rparr>
         ''a'' = Some (VNum 7)"
proof -
  have h: "evaluate (JObj [(''let'', JObj [(''a'', JNum 1), (''in'', JStr ''$a'')])])
     \<lparr>variables = [''a'' \<mapsto> VNum 7], prototype = ObjectPrototype, next_addr = 0\<rparr>
     = (Inr (VNum 1), \<lparr>variables = [''a'' \<mapsto> VNum 7], prototype = ObjectPrototype, next_addr = 0\<rparr>)"
    by (simp add: strict_simps)
  have n: "no_proto_key (JObj [(''a'', JNum 1), (''in'', JStr ''$a'')])"
    by (simp add: no_proto_key.simps)
  show ?thesis using h n let_restores_scope_on_success [OF h] by simp
qed

text \<open>
  The claim as stated fails when the evaluation fails: \<open>let {a: 1} in $missing\<close> throws
  from the \<open>in\<close> expression, the restoring code is never reached, and \<open>a\<close> stays bound.
\<close>

theorem let_leaks_on_failure:
  "evaluate (JObj [(''let'', JObj [(''a'', JNum 1), (''in'', JStr ''$missing'')])])
     (initial_state None)
     = (Inl (UndefinedVariable ''missing''),
        (initial_state None)\<lparr>variables := [''a'' \<mapsto> VNum 1]\<rparr>)
   \<and> variables (initial_state None) ''a'' = None
   \<and> variables ((initial_state None)\<lparr>variables := [''a'' \<mapsto> VNum 1]\<rparr>) ''a'' = Some (VNum 1)"
  by (simp add: strict_simps)


subsection \<open>The bindings of a \<open>let\<close>\<close>

text \<open>The examples of sequential binding: \<open>let {a: 1, b: $a} in $b\<close> is 1, a reference to
  a later sibling is an undefined variable, \<open>let {a: 1} in (let {a: 2} in $a)\<close> is 2, and
  after the inner \<open>let\<close> the outer \<open>a\<close> is 1 again.\<close>

lemma let_examples:
  "evaluate (JObj [(''let'', JObj [(''a'', JNum 1), (''b'', JStr ''$a''), (''in'', JStr ''$b'')])])
       (initial_state None)
     = (Inr (VNum 1), initial_state None)"
  "evaluate (JObj [(''let'', JObj [(''b'', JStr ''$a''), (''a'', JNum 1), (''in'', JStr ''$b'')])])
       (initial_state None)
     = (Inl (UndefinedVariable ''a''), initial_state None)"
  "evaluate (JObj [(''let'', JObj [(''a'', JNum 1),
                (''in'', JObj [(''let'', JObj [(''a'', JNum 2), (''in'', JStr ''$a'')])])])])
       (initial_state None)
     = (Inr (VNum 2), initial_state None)"
  "evaluate (JObj [(''let'', JObj [(''a'', JNum 1),
                (''in'', JArr [JObj [(''let'', JObj [(''a'', JNum 2), (''in'', JStr ''$a'')])],
                              JStr ''$a''])])]) (initial_state None)
     = (Inr (VArr 0 [VNum 2, VNum 1]), (initial_state None)\<lparr>next_addr := 1\<rparr>)"
  by (simp_all add: strict_simps)

lemma restore_after_restore:
  assumes "saved2 ''__proto__'' = None"
  shows "restore_variables saved (restore_variables saved2 st) = restore_variables saved st"
  using assms
  by (simp add: restore_variables_def Let_def set_variable_def setter_reached_def
      split: option.splits val.splits)

text \<open>Sequential binding in general: a \<open>let\<close> with several bindings is the \<open>let\<close> of
  its first binding around the \<open>let\<close> of the others, with the same result, error and
  state. So the expression of a binding is evaluated in the scope that holds exactly the
  bindings before it. This is for a first binding that is not named \<open>__proto__\<close>.\<close>

lemma let_is_nested_lets:
  assumes "key \<noteq> ''in''" and "key \<noteq> ''__proto__''"
    and "get_prop (JObj rest) ''in'' = Some body" and "js_truthy body"
    and "no_proto_key expr" and "variables E ''__proto__'' = None"
  shows "evaluate (JObj [(''let'', JObj ((key, expr) # rest))]) E
       = evaluate (JObj [(''let'', JObj [(key, expr), (''in'', JObj [(''let'', JObj rest)])])]) E"
proof -
  obtain r1 E1 where e: "evaluate expr E = (r1, E1)" by (cases "evaluate expr E")
  show ?thesis
  proof (cases r1)
    case (Inl err)
    then show ?thesis using e assms(1,3,4)
      by (simp add: evaluate.simps [of "JObj _"] dispatch_def executeLet_def Let_def)
  next
    case (Inr v)
    have "scope E1 = scope E"
      using evaluate_keeps assms(5) _ e [unfolded Inr] by (rule keepsD) (simp add: plain_def assms(6))
    then have p: "variables (set_variable key v E1) ''__proto__'' = None"
      using assms(2,6) by (simp add: scope_def set_variable_other)
    obtain r2 E2 where b: "let_bindings evaluate rest (set_variable key v E1) = (r2, E2)"
      by (cases "let_bindings evaluate rest (set_variable key v E1)")
    show ?thesis
    proof (cases r2)
      case (Inl err)
      then show ?thesis using e Inr b assms(1,3,4)
        by (simp add: evaluate.simps [of "JObj _"] dispatch_def executeLet_def Let_def)
    next
      case u: (Inr u)
      obtain r3 E3 where c: "evaluate body E2 = (r3, E3)" by (cases "evaluate body E2")
      show ?thesis using e Inr b u c assms(1,3,4) p
        by (cases r3)
           (simp_all add: evaluate.simps [of "JObj _"] dispatch_def executeLet_def Let_def
             restore_after_restore)
    qed
  qed
qed

text \<open>
  Claim C6. The code installs a binding with \<open>this.variables[key] = this.evaluate(value)\<close>
  on a plain object. For the key \<open>__proto__\<close> this assignment is the setter of
  \<open>Object.prototype\<close>: no variable is installed, and an array, an object or null becomes
  the prototype of the scope object. So \<open>let {__proto__: null} in $__proto__\<close> fails with
  an undefined variable where the binding should give null, as \<open>let {a: null} in $a\<close>
  does; and in \<open>let {__proto__: [7], b: $0} in $b\<close> the reference \<open>$0\<close>, to a name that
  no binding has, is 7.
\<close>

theorem proto_binding_is_not_installed:
  "evaluate (JObj [(''let'', JObj [(''__proto__'', JNull), (''in'', JStr ''$__proto__'')])])
       (initial_state None)
     = (Inl (UndefinedVariable ''__proto__''), (initial_state None)\<lparr>prototype := NoPrototype\<rparr>)
   \<and> evaluate (JObj [(''let'', JObj [(''a'', JNull), (''in'', JStr ''$a'')])]) (initial_state None)
     = (Inr VNull, initial_state None)
   \<and> evaluate (JObj [(''let'', JObj [(''__proto__'', JArr [JNum 7]), (''b'', JStr ''$0''),
                                      (''in'', JStr ''$b'')])]) (initial_state None)
     = (Inr (VNum 7),
        (initial_state None)\<lparr>prototype := Prototype (VArr 0 [VNum 7]), next_addr := 1\<rparr>)"
  by (simp add: strict_simps string_of_nat.simps)


subsection \<open>The two shapes of a payload\<close>

text \<open>
  Claim C7 (as amended). \<open>concat\<close>, \<open>and\<close> and \<open>or\<close> give the same result, error and state
  for a direct array payload and for the same array under \<open>values\<close>. \<open>uppercase\<close>,
  \<open>lowercase\<close>, \<open>length\<close> and \<open>not\<close> give the same for a direct payload \<open>x\<close> and for
  \<open>{value: x}\<close> whenever \<open>x\<close> is not itself a mapping with a \<open>value\<close> key.
\<close>

theorem payload_shapes_agree:
  "evaluate (JObj [(''concat'', JArr items)]) E
     = evaluate (JObj [(''concat'', JObj [(''values'', JArr items)])]) E
   \<and> evaluate (JObj [(''and'', JArr items)]) E
     = evaluate (JObj [(''and'', JObj [(''values'', JArr items)])]) E
   \<and> evaluate (JObj [(''or'', JArr items)]) E
     = evaluate (JObj [(''or'', JObj [(''values'', JArr items)])]) E
   \<and> (\<not> has_key x ''value'' \<longrightarrow>
        evaluate (JObj [(''uppercase'', x)]) E
          = evaluate (JObj [(''uppercase'', JObj [(''value'', x)])]) E
      \<and> evaluate (JObj [(''lowercase'', x)]) E
          = evaluate (JObj [(''lowercase'', JObj [(''value'', x)])]) E
      \<and> evaluate (JObj [(''length'', x)]) E
          = evaluate (JObj [(''length'', JObj [(''value'', x)])]) E
      \<and> evaluate (JObj [(''not'', x)]) E
          = evaluate (JObj [(''not'', JObj [(''value'', x)])]) E)"
  by (simp add: evaluate.simps [of "JObj _"] dispatch_def executeConcat_def executeAnd_def
      executeOr_def executeUppercase_def executeLowercase_def executeLength_def executeNot_def
      extractValue_def values_of_def)

theorem payload_shapes_agree_witness:
  "\<not> has_key (JStr ''a'') ''value''
   \<and> evaluate (JObj [(''uppercase'', JStr ''a'')]) (initial_state None)
       = evaluate (JObj [(''uppercase'', JObj [(''value'', JStr ''a'')])]) (initial_state None)
   \<and> evaluate (JObj [(''uppercase'', JStr ''a'')]) (initial_state None)
       = (Inr (VStr ''A''), initial_state None)"
proof -
  have h: "\<not> has_key (JStr ''a'') ''value''" by simp
  have v: "evaluate (JObj [(''uppercase'', JStr ''a'')]) (initial_state None)
       = (Inr (VStr ''A''), initial_state None)"
    by (simp add: strict_simps toUpperCase_def lower_letters_def upper_letters_def)
  from payload_shapes_agree [of _ "initial_state None" "JStr ''a''"] h v
  show ?thesis by blast
qed

text \<open>
  The claim as stated fails for a payload that is a mapping with a \<open>value\<close> key: as a
  direct payload it is read as the named form, so \<open>uppercase(x)\<close> and
  \<open>uppercase({value: x})\<close> differ for \<open>x = {value: "a"}\<close>.
\<close>

theorem payload_shapes_differ:
  "evaluate (JObj [(''uppercase'', JObj [(''value'', JStr ''a'')])]) (initial_state None)
     = (Inr (VStr ''A''), initial_state None)
   \<and> evaluate (JObj [(''uppercase'', JObj [(''value'', JObj [(''value'', JStr ''a'')])])])
         (initial_state None)
     = (Inl (UnknownOperation ''value''), initial_state None)"
  by (simp add: strict_simps toUpperCase_def lower_letters_def upper_letters_def)

subsection \<open>The allocation counter only advances\<close>

definition advances :: "evaluator \<Rightarrow> jv \<Rightarrow> bool" where
  "advances ev e = (\<forall>st r st'. ev e st = (r, st') \<longrightarrow> next_addr st \<le> next_addr st')"

lemma advancesD: "advances ev e \<Longrightarrow> ev e st = (r, st') \<Longrightarrow> next_addr st \<le> next_addr st'"
  unfolding advances_def by blast

lemma set_variable_next_addr [simp]: "next_addr (set_variable key v st) = next_addr st"
  by (simp add: set_variable_def split: val.splits)

lemma restore_variables_next_addr [simp]: "next_addr (restore_variables saved st) = next_addr st"
  by (simp add: restore_variables_def Let_def split: option.splits)

lemma evaluate_items_advances:
  assumes "\<And>x. x \<in> set items \<Longrightarrow> advances ev x"
    and "evaluate_items ev items st = (r, st')"
  shows "next_addr st \<le> next_addr st'"
  using assms
proof (induction items arbitrary: st r st')
  case Nil
  then show ?case by simp
next
  case (Cons item items)
  obtain r1 st1 where a: "ev item st = (r1, st1)" by (cases "ev item st")
  have s1: "next_addr st \<le> next_addr st1" using Cons.prems(1) [of item] a by (auto dest: advancesD)
  show ?case
  proof (cases r1)
    case (Inl e)
    then show ?thesis using Cons.prems(2) a s1 by simp
  next
    case (Inr v)
    obtain r2 st2 where b: "evaluate_items ev items st1 = (r2, st2)"
      by (cases "evaluate_items ev items st1")
    have "next_addr st1 \<le> next_addr st2" using Cons.IH [OF _ b] Cons.prems(1) by simp
    moreover have "st' = st2" using Cons.prems(2) a b Inr by (cases r2) simp_all
    ultimately show ?thesis using s1 by simp
  qed
qed

lemma map_evaluate_advances:
  assumes "\<And>x. x \<in> set items \<Longrightarrow> advances ev x"
    and "map_evaluate ev items st = (r, st')"
  shows "next_addr st < next_addr st'"
proof -
  obtain r1 st1 where a: "evaluate_items ev items (st\<lparr>next_addr := Suc (next_addr st)\<rparr>) = (r1, st1)"
    by (cases "evaluate_items ev items (st\<lparr>next_addr := Suc (next_addr st)\<rparr>)")
  have "Suc (next_addr st) \<le> next_addr st1" using evaluate_items_advances [OF assms(1) a] by simp
  moreover have "st' = st1" using assms(2) a unfolding map_evaluate_def by (cases r1) simp_all
  ultimately show ?thesis by simp
qed

lemma prop_advances:
  assumes "\<And>x. esize x \<le> esize args \<Longrightarrow> advances ev x"
    and "get_prop args k = Some x" and "ev x s = (r, s')"
  shows "next_addr s \<le> next_addr s'"
  using assms(1) [of x] esize_prop [OF assms(2)] assms(3) by (auto dest: advancesD)

lemma executeEquals_advances:
  assumes "\<And>x. esize x \<le> esize args \<Longrightarrow> advances ev x"
    and "executeEquals ev args st = (r, st')"
  shows "next_addr st \<le> next_addr st'"
proof -
  have p: "\<And>k x s r s'. get_prop args k = Some x \<Longrightarrow> ev x s = (r, s')
      \<Longrightarrow> next_addr s \<le> next_addr s'"
    using assms(1) by (rule prop_advances)
  show ?thesis using assms(2) unfolding executeEquals_def
    by (fastforce split: if_splits option.splits prod.splits sum.splits dest: p)
qed


lemma executeSubstring_advances:
  assumes "\<And>x. esize x \<le> esize args \<Longrightarrow> advances ev x"
    and "executeSubstring ev args st = (r, st')"
  shows "next_addr st \<le> next_addr st'"
proof -
  have p: "\<And>k x s r s'. get_prop args k = Some x \<Longrightarrow> ev x s = (r, s')
      \<Longrightarrow> next_addr s \<le> next_addr s'"
    using assms(1) by (rule prop_advances)
  show ?thesis using assms(2) unfolding executeSubstring_def
    by (fastforce split: if_splits option.splits prod.splits sum.splits dest: p)
qed

lemma executeIf_advances:
  assumes "\<And>x. esize x \<le> esize args \<Longrightarrow> advances ev x"
    and "executeIf ev args st = (r, st')"
  shows "next_addr st \<le> next_addr st'"
proof -
  have p: "\<And>k x s r s'. get_prop args k = Some x \<Longrightarrow> ev x s = (r, s')
      \<Longrightarrow> next_addr s \<le> next_addr s'"
    using assms(1) by (rule prop_advances)
  show ?thesis using assms(2) unfolding executeIf_def
    by (fastforce split: if_splits option.splits prod.splits sum.splits dest: p)
qed

lemma extractValue_advances:
  assumes "\<And>x. esize x \<le> esize args \<Longrightarrow> advances ev x"
    and "extractValue ev args st = (r, st')"
  shows "next_addr st \<le> next_addr st'"
proof -
  have p: "\<And>k x s r s'. get_prop args k = Some x \<Longrightarrow> ev x s = (r, s')
      \<Longrightarrow> next_addr s \<le> next_addr s'"
    using assms(1) by (rule prop_advances)
  have a: "\<And>s r s'. ev args s = (r, s') \<Longrightarrow> next_addr s \<le> next_addr s'"
    using assms(1) [of args] by (auto dest: advancesD)
  from assms(2) consider
      (direct) "ev args st = (r, st')"
    | (named) x where "get_prop args ''value'' = Some x" "ev x st = (r, st')"
    unfolding extractValue_def by (auto split: if_splits option.splits)
  then show ?thesis
  proof cases
    case direct
    then show ?thesis by (rule a)
  next
    case named
    then show ?thesis by (rule p)
  qed
qed

lemma values_advances:
  assumes "\<And>x. esize x \<le> esize args \<Longrightarrow> advances ev x"
    and "values_of args = Some (JArr items)" and "x \<in> set items"
  shows "advances ev x"
proof -
  have "size (JArr items) \<le> size args" using assms(2) by (rule values_of_size)
  moreover have "size x < size (JArr items)" using assms(3) by (rule set_size_less)
  ultimately show ?thesis using assms(1) [of x] by (simp add: esize_def)
qed

lemma values_map_advances:
  assumes "\<And>x. esize x \<le> esize args \<Longrightarrow> advances ev x"
    and "values_of args = Some (JArr items)" and "map_evaluate ev items st = (r, st')"
  shows "next_addr st \<le> next_addr st'"
proof -
  have "advances ev x" if "x \<in> set items" for x using assms(1,2) that by (rule values_advances)
  then have "next_addr st < next_addr st'" using assms(3) by (rule map_evaluate_advances)
  then show ?thesis by simp
qed

lemma executeConcat_advances:
  assumes "\<And>x. esize x \<le> esize args \<Longrightarrow> advances ev x"
    and "executeConcat ev args st = (r, st')"
  shows "next_addr st \<le> next_addr st'"
proof -
  have p: "\<And>items s r s'. values_of args = Some (JArr items) \<Longrightarrow> map_evaluate ev items s = (r, s')
      \<Longrightarrow> next_addr s \<le> next_addr s'"
    using assms(1) by (rule values_map_advances)
  show ?thesis using assms(2) unfolding executeConcat_def
    by (fastforce split: option.splits jv.splits prod.splits sum.splits dest: p)
qed

lemma executeAnd_advances:
  assumes "\<And>x. esize x \<le> esize args \<Longrightarrow> advances ev x"
    and "executeAnd ev args st = (r, st')"
  shows "next_addr st \<le> next_addr st'"
proof -
  have p: "\<And>items s r s'. values_of args = Some (JArr items) \<Longrightarrow> map_evaluate ev items s = (r, s')
      \<Longrightarrow> next_addr s \<le> next_addr s'"
    using assms(1) by (rule values_map_advances)
  show ?thesis using assms(2) unfolding executeAnd_def
    by (fastforce split: option.splits jv.splits prod.splits sum.splits dest: p)
qed

lemma executeOr_advances:
  assumes "\<And>x. esize x \<le> esize args \<Longrightarrow> advances ev x"
    and "executeOr ev args st = (r, st')"
  shows "next_addr st \<le> next_addr st'"
proof -
  have p: "\<And>items s r s'. values_of args = Some (JArr items) \<Longrightarrow> map_evaluate ev items s = (r, s')
      \<Longrightarrow> next_addr s \<le> next_addr s'"
    using assms(1) by (rule values_map_advances)
  show ?thesis using assms(2) unfolding executeOr_def
    by (fastforce split: option.splits jv.splits prod.splits sum.splits dest: p)
qed

lemma let_bindings_advances:
  assumes "\<And>kv. kv \<in> set entries \<Longrightarrow> advances ev (snd kv)"
    and "let_bindings ev entries st = (r, st')"
  shows "next_addr st \<le> next_addr st'"
  using assms
proof (induction entries arbitrary: st r st')
  case Nil
  then show ?case by simp
next
  case (Cons entry entries)
  have rest: "\<And>kv. kv \<in> set entries \<Longrightarrow> advances ev (snd kv)" using Cons.prems(1) by simp
  show ?case
  proof (cases "fst entry = ''in''")
    case True
    then have "let_bindings ev entries st = (r, st')" using Cons.prems(2) by simp
    with rest show ?thesis by (rule Cons.IH)
  next
    case False
    obtain r1 st1 where a: "ev (snd entry) st = (r1, st1)" by (cases "ev (snd entry) st")
    have s1: "next_addr st \<le> next_addr st1"
      using Cons.prems(1) [of entry] a by (auto dest: advancesD)
    show ?thesis
    proof (cases r1)
      case (Inl e)
      then show ?thesis using Cons.prems(2) a s1 False by simp
    next
      case (Inr v)
      then have "let_bindings ev entries (set_variable (fst entry) v st1) = (r, st')"
        using Cons.prems(2) a False by simp
      with rest have "next_addr (set_variable (fst entry) v st1) \<le> next_addr st'"
        by (rule Cons.IH)
      with s1 show ?thesis by simp
    qed
  qed
qed

lemma executeLet_advances:
  assumes "\<And>x. esize x \<le> esize args \<Longrightarrow> advances ev x"
    and "executeLet ev args st = (r, st')"
  shows "next_addr st \<le> next_addr st'"
proof -
  have p: "\<And>k x s r s'. get_prop args k = Some x \<Longrightarrow> ev x s = (r, s')
      \<Longrightarrow> next_addr s \<le> next_addr s'"
    using assms(1) by (rule prop_advances)
  have "advances ev (snd kv)" if "kv \<in> set (entries_of args)" for kv
  proof -
    have "esize (snd kv) < esize args" using that by (intro esize_entry) simp
    then show ?thesis using assms(1) by simp
  qed
  then have b: "\<And>s r s'. let_bindings ev (entries_of args) s = (r, s')
      \<Longrightarrow> next_addr s \<le> next_addr s'"
    by (rule let_bindings_advances)
  show ?thesis using assms(2) unfolding executeLet_def
    by (fastforce simp: Let_def split: if_splits option.splits prod.splits sum.splits dest: p b)
qed

lemma dispatch_advances:
  assumes "\<And>x. esize x \<le> esize args \<Longrightarrow> advances ev x"
    and "dispatch ev name args st = (r, st')"
  shows "next_addr st \<le> next_addr st'"
proof -
  note k = assms(1)
  from assms(2) consider
      (l) "executeLet ev args st = (r, st')"
    | (c) "executeConcat ev args st = (r, st')"
    | (a) "executeAnd ev args st = (r, st')"
    | (o) "executeOr ev args st = (r, st')"
    | (s) "executeSubstring ev args st = (r, st')"
    | (e) "executeEquals ev args st = (r, st')"
    | (i) "executeIf ev args st = (r, st')"
    | (x) w where "extractValue ev args st = (w, st')"
    | (u) "st' = st"
    unfolding dispatch_def executeUppercase_def executeLowercase_def executeLength_def
      executeNot_def
    by (auto split: if_splits prod.splits sum.splits)
  then show ?thesis
  proof cases
    case l with k show ?thesis by (rule executeLet_advances)
  next
    case c with k show ?thesis by (rule executeConcat_advances)
  next
    case a with k show ?thesis by (rule executeAnd_advances)
  next
    case o with k show ?thesis by (rule executeOr_advances)
  next
    case s with k show ?thesis by (rule executeSubstring_advances)
  next
    case e with k show ?thesis by (rule executeEquals_advances)
  next
    case i with k show ?thesis by (rule executeIf_advances)
  next
    case x with k show ?thesis by (rule extractValue_advances)
  next
    case u then show ?thesis by simp
  qed
qed

lemma evaluate_advances: "advances evaluate e"
proof (induction e rule: measure_induct_rule [where f = esize])
  case (less e)
  show ?case
  proof (cases e)
    case (JArr items)
    show ?thesis unfolding advances_def
    proof (intro impI allI)
      fix st r st'
      assume r: "evaluate e st = (r, st')"
      have k: "advances evaluate x" if "x \<in> set items" for x
        using less [of x] JArr esize_item [OF that] by simp
      obtain m s1 where m: "map_evaluate evaluate items st = (m, s1)"
        by (cases "map_evaluate evaluate items st")
      have "next_addr st < next_addr s1" using k m by (rule map_evaluate_advances)
      moreover have "st' = s1" using r m unfolding JArr
        by (subst (asm) evaluate.simps) (auto split: prod.splits sum.splits)
      ultimately show "next_addr st \<le> next_addr st'" by simp
    qed
  next
    case (JObj kvs)
    show ?thesis
    proof (cases kvs)
      case Nil
      then show ?thesis unfolding advances_def JObj by (auto simp: evaluate.simps)
    next
      case (Cons kv others)
      obtain name args where kv: "kv = (name, args)" by (cases kv)
      show ?thesis unfolding advances_def
      proof (intro impI allI)
        fix st r st'
        assume r: "evaluate e st = (r, st')"
        have k: "\<And>x. esize x \<le> esize args \<Longrightarrow> advances evaluate x"
          using less [of _] esize_first [of args name others] unfolding JObj Cons kv by simp
        from r have "dispatch evaluate name args st = (r, st')"
          unfolding JObj Cons kv by (subst (asm) evaluate.simps) simp
        with k show "next_addr st \<le> next_addr st'" by (rule dispatch_advances)
      qed
    qed
  next
    case (JStr s)
    show ?thesis unfolding advances_def JStr
      by (auto simp: evaluate.simps Let_def split: if_splits option.splits found.splits)
  qed (auto simp: advances_def evaluate.simps)
qed

lemma array_is_new:
  assumes "evaluate (JArr items) st = (Inr v, st')"
  shows "\<exists>vs. v = VArr (next_addr st) vs \<and> next_addr st < next_addr st'"
proof -
  obtain m s1 where m: "map_evaluate evaluate items st = (m, s1)"
    by (cases "map_evaluate evaluate items st")
  have n: "next_addr st < next_addr s1"
    using evaluate_advances m by (rule map_evaluate_advances)
  from assms m obtain vs where "m = Inr (next_addr st, vs)" "v = VArr (next_addr st) vs" "st' = s1"
    by (subst (asm) evaluate.simps)
       (auto simp: map_evaluate_def split: prod.splits sum.splits)
  with n show ?thesis by simp
qed

subsection \<open>Equality\<close>

text \<open>
  Claim C8 (as amended). \<open>equals\<close> evaluates \<open>left\<close>, then \<open>right\<close>, and compares the two
  results with \<open>===\<close>. When one of them is null, a boolean, a string or a number, and
  the left one is not NaN, the answer is true exactly when the two are identical in type
  and content, with no coercion: \<open>"A"\<close> and \<open>"a"\<close> give false, 5 and 5 true, 5 and
  \<open>"5"\<close> false. When one of them is NaN the answer is false. Sequences are compared as
  objects, not by content: every evaluation of a sequence expression makes a new array,
  so \<open>equals\<close> of two sequence expressions is false whatever they contain.
\<close>

theorem equals_is_strict:
  "(get_prop args ''left'' = Some leftExpr \<longrightarrow> get_prop args ''right'' = Some rightExpr \<longrightarrow>
    evaluate leftExpr E = (Inr l, E1) \<longrightarrow> evaluate rightExpr E1 = (Inr r, E2) \<longrightarrow>
      evaluate (JObj [(''equals'', args)]) E = (Inr (VBool (js_strict_equals l r)), E2)
      \<and> (is_primitive l \<or> is_primitive r \<longrightarrow> l \<noteq> VNaN \<longrightarrow> js_strict_equals l r = (l = r))
      \<and> (l = VNaN \<or> r = VNaN \<longrightarrow> \<not> js_strict_equals l r))
   \<and> (get_prop args ''left'' = Some (JArr xs) \<longrightarrow> get_prop args ''right'' = Some (JArr ys) \<longrightarrow>
        evaluate (JObj [(''equals'', args)]) E = (Inr v, E') \<longrightarrow> v = VBool False)
   \<and> evaluate (JObj [(''equals'', JObj [(''left'', JStr ''A''), (''right'', JStr ''a'')])]) E
       = (Inr (VBool False), E)
   \<and> evaluate (JObj [(''equals'', JObj [(''left'', JNum 5), (''right'', JNum 5)])]) E
       = (Inr (VBool True), E)
   \<and> evaluate (JObj [(''equals'', JObj [(''left'', JNum 5), (''right'', JStr ''5'')])]) E
       = (Inr (VBool False), E)"
proof -
  have "evaluate (JObj [(''equals'', args)]) E = (Inr (VBool (js_strict_equals l r)), E2)"
    if "get_prop args ''left'' = Some leftExpr" "get_prop args ''right'' = Some rightExpr"
      "evaluate leftExpr E = (Inr l, E1)" "evaluate rightExpr E1 = (Inr r, E2)"
    using that get_prop_SomeD [OF that(1)] get_prop_SomeD [OF that(2)]
    by (simp add: evaluate.simps [of "JObj _"] dispatch_def executeEquals_def)
  moreover have "evaluate (JObj [(''equals'', JObj [(''left'', JStr ''A''), (''right'', JStr ''a'')])]) E
       = (Inr (VBool False), E)"
    by (simp add: strict_simps)
  moreover have "evaluate (JObj [(''equals'', JObj [(''left'', JNum 5), (''right'', JNum 5)])]) E
       = (Inr (VBool True), E)"
    by (simp add: strict_simps)
  moreover have "evaluate (JObj [(''equals'', JObj [(''left'', JNum 5), (''right'', JStr ''5'')])]) E
       = (Inr (VBool False), E)"
    by (simp add: strict_simps)
  moreover have "l = VNaN \<or> r = VNaN \<longrightarrow> \<not> js_strict_equals l r"
    using strict_equals_NaN strict_equals_NaN_right by blast
  moreover have "v = VBool False"
    if g: "get_prop args ''left'' = Some (JArr xs)" "get_prop args ''right'' = Some (JArr ys)"
      and e: "evaluate (JObj [(''equals'', args)]) E = (Inr v, E')"
  proof -
    from e have "executeEquals evaluate args E = (Inr v, E')"
      by (subst (asm) evaluate.simps) (simp add: dispatch_def)
    then obtain a s1 b where
      a: "evaluate (JArr xs) E = (Inr a, s1)" and b: "evaluate (JArr ys) s1 = (Inr b, E')"
      and v: "v = VBool (js_strict_equals a b)"
      unfolding executeEquals_def using g
      by (auto split: if_splits prod.splits sum.splits)
    from array_is_new [OF a] array_is_new [OF b] show ?thesis unfolding v by auto
  qed
  ultimately show ?thesis using strict_equals_primitive by simp
qed

theorem equals_is_strict_witness:
  "get_prop (JObj [(''left'', JNum 5), (''right'', JNum 5)]) ''left'' = Some (JNum 5)
   \<and> get_prop (JObj [(''left'', JNum 5), (''right'', JNum 5)]) ''right'' = Some (JNum 5)
   \<and> evaluate (JNum 5) (initial_state None) = (Inr (VNum 5), initial_state None)
   \<and> is_primitive (VNum 5) \<and> VNum 5 \<noteq> VNaN
   \<and> evaluate (JObj [(''equals'', JObj [(''left'', JNum 5), (''right'', JNum 5)])])
        (initial_state None)
       = (Inr (VBool (js_strict_equals (VNum 5) (VNum 5))), initial_state None)
   \<and> js_strict_equals (VNum 5) (VNum 5) = (VNum 5 = VNum 5)
   \<and> evaluate JNaN (initial_state None) = (Inr VNaN, initial_state None)
   \<and> \<not> js_strict_equals VNaN (VNum 5)
   \<and> get_prop (JObj [(''left'', JArr [JNum 1]), (''right'', JArr [JNum 1])]) ''left''
       = Some (JArr [JNum 1])
   \<and> get_prop (JObj [(''left'', JArr [JNum 1]), (''right'', JArr [JNum 1])]) ''right''
       = Some (JArr [JNum 1])
   \<and> evaluate (JObj [(''equals'', JObj [(''left'', JArr [JNum 1]), (''right'', JArr [JNum 1])])])
        (initial_state None)
       = (Inr (VBool False), (initial_state None)\<lparr>next_addr := 2\<rparr>)"
proof -
  have h1: "get_prop (JObj [(''left'', JNum 5), (''right'', JNum 5)]) ''left'' = Some (JNum 5)"
    and h2: "get_prop (JObj [(''left'', JNum 5), (''right'', JNum 5)]) ''right'' = Some (JNum 5)"
    and h3: "evaluate (JNum 5) (initial_state None) = (Inr (VNum 5), initial_state None)"
    and h4: "is_primitive (VNum 5)" and h5: "VNum 5 \<noteq> VNaN"
    and h6: "evaluate JNaN (initial_state None) = (Inr VNaN, initial_state None)"
    and g1: "get_prop (JObj [(''left'', JNaN), (''right'', JNum 5)]) ''left'' = Some JNaN"
    and g2: "get_prop (JObj [(''left'', JNaN), (''right'', JNum 5)]) ''right'' = Some (JNum 5)"
    by (simp_all add: evaluate.simps)
  from equals_is_strict [of "JObj [(''left'', JNum 5), (''right'', JNum 5)]" "JNum 5" "JNum 5"
      "initial_state None" "VNum 5" "initial_state None" "VNum 5" "initial_state None"]
    h1 h2 h3 h4 h5
  have a: "evaluate (JObj [(''equals'', JObj [(''left'', JNum 5), (''right'', JNum 5)])])
        (initial_state None)
       = (Inr (VBool (js_strict_equals (VNum 5) (VNum 5))), initial_state None)
     \<and> js_strict_equals (VNum 5) (VNum 5) = (VNum 5 = VNum 5)"
    by blast
  from equals_is_strict [of "JObj [(''left'', JNaN), (''right'', JNum 5)]" JNaN "JNum 5"
      "initial_state None" VNaN "initial_state None" "VNum 5" "initial_state None"]
    g1 g2 h3 h6
  have b: "\<not> js_strict_equals VNaN (VNum 5)" by blast
  have k1: "get_prop (JObj [(''left'', JArr [JNum 1]), (''right'', JArr [JNum 1])]) ''left''
       = Some (JArr [JNum 1])"
    and k2: "get_prop (JObj [(''left'', JArr [JNum 1]), (''right'', JArr [JNum 1])]) ''right''
       = Some (JArr [JNum 1])"
    by simp_all
  obtain w S where k3:
    "evaluate (JObj [(''equals'', JObj [(''left'', JArr [JNum 1]), (''right'', JArr [JNum 1])])])
        (initial_state None) = (Inr w, S)"
    and S: "S = (initial_state None)\<lparr>next_addr := 2\<rparr>"
    by (simp add: strict_simps)
  from equals_is_strict [of "JObj [(''left'', JArr [JNum 1]), (''right'', JArr [JNum 1])]"
      _ _ "initial_state None" _ _ _ _ "[JNum 1]" "[JNum 1]" w S] k1 k2 k3
  have c: "w = VBool False" by blast
  show ?thesis using h1 h2 h3 h4 h5 h6 a b k1 k2 k3 c S by simp
qed

text \<open>
  The claim as stated fails for sequences and for NaN: \<open>[1]\<close> evaluated twice gives two
  arrays of the same type and content, and \<open>equals\<close> answers false, because they are two
  objects; NaN and NaN are identical in type and content, and \<open>equals\<close> answers false.
\<close>

theorem equals_on_sequences:
  "evaluate (JArr [JNum 1]) (initial_state None)
     = (Inr (VArr 0 [VNum 1]), (initial_state None)\<lparr>next_addr := 1\<rparr>)
   \<and> evaluate (JArr [JNum 1]) ((initial_state None)\<lparr>next_addr := 1\<rparr>)
     = (Inr (VArr 1 [VNum 1]), (initial_state None)\<lparr>next_addr := 2\<rparr>)
   \<and> content_of (VArr 0 [VNum 1]) = content_of (VArr 1 [VNum 1])
   \<and> evaluate (JObj [(''equals'', JObj [(''left'', JArr [JNum 1]), (''right'', JArr [JNum 1])])])
        (initial_state None)
     = (Inr (VBool False), (initial_state None)\<lparr>next_addr := 2\<rparr>)
   \<and> evaluate (JObj [(''equals'', JObj [(''left'', JNaN), (''right'', JNaN)])]) (initial_state None)
     = (Inr (VBool False), initial_state None)"
  by (simp add: strict_simps)

subsection \<open>References\<close>

text \<open>
  Claim C9 (as amended). In the scope a run starts with when the program has no variables,
  the strict evaluator answers \<open>$missing\<close>, and every reference to a name that
  \<open>Object.prototype\<close> does not define, with the error \<open>Undefined variable\<close> of that name.
  The diagnostic evaluator does not fail and raises nothing, and it has no rule for
  references: what it returns for a string, a reference or not, bound in its context or
  not, is that string.
\<close>

theorem missing_variable:
  "(name \<notin> set object_prototype_names \<longrightarrow>
      evaluate (JStr (CHR ''$'' # name)) (initial_state None)
        = (Inl (UndefinedVariable name), initial_state None))
   \<and> evaluate (JStr ''$missing'') (initial_state None)
     = (Inl (UndefinedVariable ''missing''), initial_state None)
   \<and> execute None (JStr ''$missing'') = Inl (UndefinedVariable ''missing'')
   \<and> fst (tryEvaluate (JStr s) inputs pathPrefix ds) = Inr (VStr s)"
  by (simp add: evaluate.simps startsWith_dollar_def initial_state_def inherited_def execute_def
      tryEvaluate.simps Let_def object_prototype_names_def)

theorem missing_variable_witness:
  "''missing'' \<notin> set object_prototype_names
   \<and> evaluate (JStr (CHR ''$'' # ''missing'')) (initial_state None)
       = (Inl (UndefinedVariable ''missing''), initial_state None)"
proof -
  have h: "''missing'' \<notin> set object_prototype_names" by (simp add: object_prototype_names_def)
  from missing_variable [of "''missing''"] h show ?thesis by blast
qed

text \<open>
  The claim as stated fails for the diagnostic evaluator: it answers \<open>$missing\<close> with the
  string \<open>$missing\<close>, which is what it answers when \<open>missing\<close> is bound, and what a plain
  string gets. Its placeholder for a name that is not bound is \<open><missing>\<close>, and it gives
  it to \<open>get\<close> only.
\<close>

theorem diagnostic_returns_the_reference:
  "fst (coveragePass (JStr ''$missing'') noInputs) = Inr (VStr ''$missing'')
   \<and> fst (coveragePass (JStr ''$missing'') [''missing'' \<mapsto> VNum 1]) = Inr (VStr ''$missing'')
   \<and> fst (coveragePass (JObj [(''get'', JStr ''missing'')]) noInputs) = Inr (VStr ''<missing>'')
   \<and> fst (coveragePass (JObj [(''get'', JStr ''missing'')]) [''missing'' \<mapsto> VNum 1])
       = Inr (VNum 1)
   \<and> VStr ''$missing'' \<noteq> VStr ''<missing>'' \<and> VStr ''$missing'' \<noteq> VStr ''<error>''"
  by (simp add: tryEvaluate.simps Let_def coveragePass_def noInputs_def)

subsection \<open>Dispatch\<close>

text \<open>
  Claim C10. A non-empty mapping is dispatched on its first enumerated key and that key's
  payload alone: the keys after the first never influence the result, the error or the
  state left behind, so \<open>{concat: P, extra: Q}\<close> evaluates exactly as \<open>{concat: P}\<close>.
\<close>

theorem first_key_decides:
  "evaluate (JObj ((operationName, operationArgs) # others)) st =
   evaluate (JObj [(operationName, operationArgs)]) st"
  by (simp add: evaluate.simps)

section \<open>Properties of the diagnostic evaluator and the tree builder\<close>

subsection \<open>How the tracker grows\<close>

text \<open>\<open>grows p ds ds'\<close>: a tracker stays a tracker, nothing is ever removed, and every path
  added starts with \<open>p\<close>.\<close>

definition grows :: "string \<Rightarrow> dstate \<Rightarrow> dstate \<Rightarrow> bool" where
  "grows p ds ds' =
     (case coveredPaths ds of
        None \<Rightarrow> coveredPaths ds' = None
      | Some S \<Rightarrow> (\<exists>S'. coveredPaths ds' = Some S' \<and> S \<subseteq> S' \<and> (\<forall>x\<in>S'. x \<in> S \<or> (\<exists>t. x = p @ t))))"

lemma grows_refl: "grows p ds ds"
  unfolding grows_def by (auto split: option.splits)

lemma grows_trans: "grows p a b \<Longrightarrow> grows p b c \<Longrightarrow> grows p a c"
  unfolding grows_def by (fastforce split: option.splits)

lemma grows_prefix: "grows (p @ q) a b \<Longrightarrow> grows p a b"
  unfolding grows_def by (fastforce split: option.splits)

lemma grows_heap: "grows p (ds\<lparr>heap_next := n\<rparr>) ds' = grows p ds ds'"
  unfolding grows_def by simp

lemma grows_heap': "grows p ds (ds'\<lparr>heap_next := n\<rparr>) = grows p ds ds'"
  unfolding grows_def by (cases "coveredPaths ds") simp_all

lemma generatePathId_prefix: "\<exists>t. generatePathId e p = p @ t"
  unfolding generatePathId_def by (cases e) auto

lemma grows_mark: "grows p ds (markCovered (generatePathId e p) ds)"
  using generatePathId_prefix [of e p] unfolding grows_def markCovered_def
  by (auto split: option.splits)

lemma snd_propagate:
  "snd (case m of (Inl e, s) \<Rightarrow> (Inl e, s) | (Inr v, s) \<Rightarrow> (g v, s)) = snd m"
  by (auto split: prod.splits sum.splits)

lemma grows_bind:
  assumes "grows p ds (snd m)"
    and "\<And>v s. m = (Inr v, s) \<Longrightarrow> grows p s (snd (f v s))"
  shows "grows p ds (snd (case m of (Inl e, s) \<Rightarrow> (Inl e, s) | (Inr v, s) \<Rightarrow> f v s))"
proof (cases m)
  case (Pair r s)
  show ?thesis
  proof (cases r)
    case (Inl e)
    then show ?thesis using assms(1) Pair by simp
  next
    case (Inr v)
    have "grows p s (snd (f v s))" using assms(2) Pair Inr by simp
    moreover have "grows p ds s" using assms(1) Pair by simp
    ultimately show ?thesis using Pair Inr grows_trans by auto
  qed
qed

lemma tryEvaluate_items_grows:
  assumes "\<And>x c q s. x \<in> set items \<Longrightarrow> grows q s (snd (tev x c q s))"
    and "\<And>i. \<exists>t. mkPrefix i = p @ t"
  shows "grows p ds (snd (tryEvaluate_items tev mkPrefix context idx items ds))"
  using assms(1)
proof (induction items arbitrary: idx ds)
  case Nil
  show ?case by (simp add: grows_refl)
next
  case (Cons item items)
  obtain t where t: "mkPrefix idx = p @ t" using assms(2) by blast
  have a: "grows p ds (snd (tev item context (mkPrefix idx) ds))"
    using Cons.prems [where x = item and c = "context" and q = "p @ t" and s = ds] t grows_prefix by simp
  have b: "\<And>i s. grows p s (snd (tryEvaluate_items tev mkPrefix context i items s))"
    using Cons.IH Cons.prems by simp
  show ?case
    unfolding tryEvaluate_items.simps
    by (rule grows_bind [OF a]) (simp add: snd_propagate b)
qed

lemma tryEvaluate_bindings_grows:
  assumes "\<And>x c q s. x \<in> snd ` set entries \<Longrightarrow> grows q s (snd (tev x c q s))"
  shows "grows p ds (snd (tryEvaluate_bindings tev p context entries newContext ds))"
  using assms
proof (induction entries arbitrary: newContext ds)
  case Nil
  show ?case by (simp add: grows_refl)
next
  case (Cons entry entries)
  have a: "grows p ds (snd (tev (snd entry) context (p @ ''.let.'' @ fst entry) ds))"
    using Cons.prems [where x = "snd entry" and c = "context" and q = "p @ ''.let.'' @ fst entry"
        and s = ds] grows_prefix by simp
  have b: "\<And>n s. grows p s (snd (tryEvaluate_bindings tev p context entries n s))"
    using Cons.IH Cons.prems by simp
  show ?case
    unfolding tryEvaluate_bindings.simps
    by (rule grows_bind [OF a]) (simp add: b)
qed


lemma grows_if:
  "(c \<Longrightarrow> grows p a (snd x)) \<Longrightarrow> (\<not> c \<Longrightarrow> grows p a (snd y))
   \<Longrightarrow> grows p a (snd (if c then x else y))"
  by simp

lemma grows_opt:
  "(ov = None \<Longrightarrow> grows p a (snd x)) \<Longrightarrow> (\<And>v. ov = Some v \<Longrightarrow> grows p a (snd (f v)))
   \<Longrightarrow> grows p a (snd (case ov of None \<Rightarrow> x | Some v \<Rightarrow> f v))"
  by (cases ov) simp_all

lemma grows_jstr:
  "(\<And>s. vl = JStr s \<Longrightarrow> grows p a (snd (f s))) \<Longrightarrow> grows p a (snd g)
   \<Longrightarrow> grows p a (snd (case vl of JStr s \<Rightarrow> f s | _ \<Rightarrow> g))"
  by (cases vl) simp_all

lemma grows_jarr:
  "(\<And>xs. vl = JArr xs \<Longrightarrow> grows p a (snd (f xs))) \<Longrightarrow> grows p a (snd g)
   \<Longrightarrow> grows p a (snd (case vl of JArr xs \<Rightarrow> f xs | _ \<Rightarrow> g))"
  by (cases vl) simp_all

lemma grows_vstr:
  "(\<And>s. w = VStr s \<Longrightarrow> grows p a (snd (f s))) \<Longrightarrow> grows p a (snd g)
   \<Longrightarrow> grows p a (snd (case w of VStr s \<Rightarrow> f s | _ \<Rightarrow> g))"
  by (cases w) simp_all

lemmas grows_intros = grows_if grows_opt grows_jstr grows_jarr grows_vstr grows_bind

lemma snd_catch:
  "snd (case m of (Inl e, s) \<Rightarrow> (Inr w, s) | (Inr v, s) \<Rightarrow> (Inr v, s)) = snd m"
  by (auto split: prod.splits sum.splits)

lemma tryEvaluate_grows_marked:
  "grows p (markCovered (generatePathId e p) ds) (snd (tryEvaluate e c p ds))"
proof (induction e arbitrary: c p ds rule: measure_induct_rule [where f = esize])
  case (less e)
  define ds1 where "ds1 = markCovered (generatePathId e p) ds"
  have m: "grows p ds ds1" unfolding ds1_def by (rule grows_mark)
  have ih: "\<And>x c' t s. esize x < esize e \<Longrightarrow> grows p s (snd (tryEvaluate x c' (p @ t) s))"
  proof -
    fix x c' t s
    assume "esize x < esize e"
    then have "grows (p @ t) (markCovered (generatePathId x (p @ t)) s)
                 (snd (tryEvaluate x c' (p @ t) s))"
      by (rule less)
    with grows_mark [of "p @ t" s x] have "grows (p @ t) s (snd (tryEvaluate x c' (p @ t) s))"
      by (rule grows_trans)
    then show "grows p s (snd (tryEvaluate x c' (p @ t) s))" by (rule grows_prefix)
  qed
  have ih0: "\<And>x c' q s. esize x < esize e \<Longrightarrow> grows q s (snd (tryEvaluate x c' q s))"
    using less grows_mark grows_trans by blast
  have ihp: "\<And>x k c' t s. get_prop e k = Some x \<Longrightarrow> grows p s (snd (tryEvaluate x c' (p @ t) s))"
    using ih esize_prop by blast
  have "grows p ds1 (snd (tryEvaluate e c p ds))"
  proof (cases e)
    case (JArr items)
    have "grows p (ds1\<lparr>heap_next := Suc (heap_next ds1)\<rparr>)
            (snd (tryEvaluate_items tryEvaluate (\<lambda>idx. p @ ''['' @ string_of_nat idx @ '']'') c 0 items
                   (ds1\<lparr>heap_next := Suc (heap_next ds1)\<rparr>)))"
      using ih0 JArr esize_item by (intro tryEvaluate_items_grows) auto
    then show ?thesis
      unfolding JArr
      by (subst tryEvaluate.simps)
        (simp add: Let_def ds1_def [symmetric, unfolded JArr] snd_catch snd_propagate grows_heap)
  next
    case (JObj kvs)
    show ?thesis
    proof (cases kvs)
      case Nil
      show ?thesis unfolding JObj Nil
        by (subst tryEvaluate.simps)
          (simp add: Let_def ds1_def [symmetric, unfolded JObj Nil] grows_refl)
    next
      case (Cons kv others)
      obtain key vl where kv: "kv = (key, vl)" by (cases kv)
      note e = JObj Cons kv
      have ihv: "\<And>c' t s. grows p s (snd (tryEvaluate vl c' (p @ t) s))"
        using ih esize_first [of vl key others] unfolding e by blast
      have ihi: "\<And>items mk c' i s. vl = JArr items \<Longrightarrow> (\<And>i. \<exists>t. mk i = p @ t)
          \<Longrightarrow> grows p s (snd (tryEvaluate_items tryEvaluate mk c' i items s))"
        using ih0 esize_first_item [of _ _ key others] unfolding e
        by (intro tryEvaluate_items_grows) auto
      have ihc: "\<And>items c' i s. vl = JArr items
          \<Longrightarrow> grows p s (snd (tryEvaluate_items tryEvaluate
                (\<lambda>idx. p @ ''.concat['' @ string_of_nat idx @ '']'') c' i items s))"
        by (rule ihi) auto
      have ihq: "\<And>x k c' t s. get_prop vl k = Some x \<Longrightarrow> grows p s (snd (tryEvaluate x c' (p @ t) s))"
        using ih esize_first_prop [of vl _ _ key others] unfolding e by blast
      have ihb: "\<And>l c' n s. get_prop e ''let'' = Some l
          \<Longrightarrow> grows p s (snd (tryEvaluate_bindings tryEvaluate p c' (entries_of l) n s))"
        using ih0 esize_prop_entry by (intro tryEvaluate_bindings_grows) blast
      show ?thesis
        unfolding e
        apply (subst tryEvaluate.simps)
        apply (simp only: Let_def snd_catch jv.case list.case prod.case
            ds1_def [symmetric, unfolded e])
        apply (intro grows_intros)
        apply (simp_all add: grows_refl grows_heap grows_heap' ihv ihc ihq
            ihp [unfolded e] ihb [unfolded e] del: get_prop.simps)
        apply (subst grows_heap [symmetric, where n = "Suc (heap_next ds1)"])
        apply (rule ihi, assumption, simp)
        done
    qed
  qed (simp_all add: ds1_def tryEvaluate.simps Let_def grows_refl)
  then show ?case unfolding ds1_def .
qed

lemma tryEvaluate_grows: "grows p ds (snd (tryEvaluate e c p ds))"
  using grows_mark tryEvaluate_grows_marked by (rule grows_trans)

lemmas diag_simps = tryEvaluate.simps markCovered_def generatePathId_def json_quote_def
  json_escape_char_def sort_keys_def string_of_nat.simps Let_def coveragePass_def
  newTracker_def noInputs_def

lemma catch_eq:
  "(case m of (Inl e, s) \<Rightarrow> (Inr w, s) | (Inr v, s) \<Rightarrow> (Inr v, s))
   = (Inr (case fst m of Inl e \<Rightarrow> w | Inr v \<Rightarrow> v), snd m)"
  by (auto split: prod.splits sum.splits)

text \<open>
  Claim C3. The diagnostic evaluator never raises: for every expression, context, path
  prefix and tracker it returns a value. A failure inside a node is caught at that node
  and replaced by the placeholder \<open><error>\<close>, and the siblings of the node are
  evaluated as usual.
\<close>

theorem tryEvaluate_never_raises:
  "(\<exists>v ds'. tryEvaluate expr context pathPrefix ds = (Inr v, ds'))
   \<and> fst (tryEvaluate (JObj [(''equals'', JNull)]) context pathPrefix ds) = Inr (VStr ''<error>'')
   \<and> fst (tryEvaluate (JObj [(''let'', JNull), (''in'', JNum 1)]) context pathPrefix ds)
       = Inr (VStr ''<error>'')
   \<and> fst (tryEvaluate (JArr [JObj [(''equals'', JNull)], JStr ''x'']) context pathPrefix ds)
       = Inr (VArr (heap_next ds) [VStr ''<error>'', VStr ''x''])"
proof -
  have "\<exists>v ds'. tryEvaluate expr context pathPrefix ds = (Inr v, ds')"
    by (subst tryEvaluate.simps) (simp only: Let_def catch_eq, blast)
  moreover have "fst (tryEvaluate (JObj [(''equals'', JNull)]) context pathPrefix ds)
      = Inr (VStr ''<error>'')"
    by (simp add: tryEvaluate.simps Let_def)
  moreover have "fst (tryEvaluate (JObj [(''let'', JNull), (''in'', JNum 1)]) context pathPrefix ds)
       = Inr (VStr ''<error>'')"
    by (simp add: tryEvaluate.simps Let_def)
  moreover have "fst (tryEvaluate (JArr [JObj [(''equals'', JNull)], JStr ''x'']) context pathPrefix ds)
       = Inr (VArr (heap_next ds) [VStr ''<error>'', VStr ''x''])"
    by (simp add: tryEvaluate.simps Let_def markCovered_def)
  ultimately show ?thesis by blast
qed


lemma generatePathId_shape: "\<exists>t. generatePathId e q = q @ CHR '':'' # t"
  unfolding generatePathId_def by (cases e) auto

lemma flat_if_state:
  assumes "''then'' \<in> set (map fst others) \<or> ''else'' \<in> set (map fst others)"
    and "tryEvaluate c ctx (p @ ''.if'')
           (markCovered (generatePathId (JObj ((''if'', c) # others)) p) ds) = (Inr cond, ds1)"
  shows "snd (tryEvaluate (JObj ((''if'', c) # others)) ctx p ds)
     = (if js_Boolean cond then
          (case get_prop (JObj ((''if'', c) # others)) ''then'' of
             Some t \<Rightarrow> snd (tryEvaluate t ctx (p @ ''.then'') ds1) | None \<Rightarrow> ds1)
        else
          (case get_prop (JObj ((''if'', c) # others)) ''else'' of
             Some e \<Rightarrow> snd (tryEvaluate e ctx (p @ ''.else'') ds1) | None \<Rightarrow> ds1))"
  using assms
  by (subst tryEvaluate.simps) (auto simp: Let_def snd_catch split: option.splits)

lemma marked_self:
  assumes "coveredPaths ds = Some S"
  shows "\<exists>S'. coveredPaths (snd (tryEvaluate e c p ds)) = Some S' \<and> generatePathId e p \<in> S'"
  using tryEvaluate_grows_marked [of p e ds c] assms
  unfolding grows_def markCovered_def by auto

text \<open>
  Claim C5 (as amended). The diagnostic evaluator knows the flat encoding of a
  conditional, \<open>{if: c, then: t, else: e}\<close>. One pass over \<open>{if: true, then: "A", else: "B"}\<close>
  with a new tracker records the path identifier of the \<open>then\<close> branch and not that of
  the \<open>else\<close> branch. In general, a pass over a mapping whose first key is \<open>if\<close> records
  the identifier of the branch it takes and does not add the identifier of the other
  branch.
\<close>

theorem untaken_branch_not_covered:
  "coveredPaths (snd (coveragePass (JObj [(''if'', JBool True), (''then'', JStr ''A''),
                                           (''else'', JStr ''B'')]) inputs))
     = Some {''root:{else,if,then}'', ''root.if:true'', generatePathId (JStr ''A'') ''root.then''}
   \<and> generatePathId (JStr ''B'') ''root.else''
       \<notin> {''root:{else,if,then}'', ''root.if:true'', generatePathId (JStr ''A'') ''root.then''}
   \<and> (coveredPaths ds = Some S \<longrightarrow>
        (''then'' \<in> set (map fst others) \<or> ''else'' \<in> set (map fst others)) \<longrightarrow>
        tryEvaluate c inputs (p @ ''.if'')
          (markCovered (generatePathId (JObj ((''if'', c) # others)) p) ds) = (Inr cond, ds1) \<longrightarrow>
        coveredPaths (snd (tryEvaluate (JObj ((''if'', c) # others)) inputs p ds)) = Some S' \<longrightarrow>
        get_prop (JObj ((''if'', c) # others)) ''then'' = Some t \<longrightarrow>
        get_prop (JObj ((''if'', c) # others)) ''else'' = Some e \<longrightarrow>
          (js_Boolean cond \<longrightarrow>
             generatePathId t (p @ ''.then'') \<in> S'
             \<and> (generatePathId e (p @ ''.else'') \<notin> S \<longrightarrow> generatePathId e (p @ ''.else'') \<notin> S'))
        \<and> (\<not> js_Boolean cond \<longrightarrow>
             generatePathId e (p @ ''.else'') \<in> S'
             \<and> (generatePathId t (p @ ''.then'') \<notin> S \<longrightarrow> generatePathId t (p @ ''.then'') \<notin> S')))"
proof -
  have ex: "coveredPaths (snd (coveragePass (JObj [(''if'', JBool True), (''then'', JStr ''A''),
                                           (''else'', JStr ''B'')]) inputs))
     = Some {''root:{else,if,then}'', ''root.if:true'', generatePathId (JStr ''A'') ''root.then''}"
    by (simp add: diag_simps) blast
  have nin: "generatePathId (JStr ''B'') ''root.else''
       \<notin> {''root:{else,if,then}'', ''root.if:true'', generatePathId (JStr ''A'') ''root.then''}"
    by (simp add: diag_simps)
  have gen: "(js_Boolean cond \<longrightarrow>
             generatePathId t (p @ ''.then'') \<in> S'
             \<and> (generatePathId e (p @ ''.else'') \<notin> S \<longrightarrow> generatePathId e (p @ ''.else'') \<notin> S'))
        \<and> (\<not> js_Boolean cond \<longrightarrow>
             generatePathId e (p @ ''.else'') \<in> S'
             \<and> (generatePathId t (p @ ''.then'') \<notin> S \<longrightarrow> generatePathId t (p @ ''.then'') \<notin> S'))"
    if S: "coveredPaths ds = Some S"
      and k: "''then'' \<in> set (map fst others) \<or> ''else'' \<in> set (map fst others)"
      and c: "tryEvaluate c inputs (p @ ''.if'')
          (markCovered (generatePathId (JObj ((''if'', c) # others)) p) ds) = (Inr cond, ds1)"
      and S': "coveredPaths (snd (tryEvaluate (JObj ((''if'', c) # others)) inputs p ds)) = Some S'"
      and t: "get_prop (JObj ((''if'', c) # others)) ''then'' = Some t"
      and e: "get_prop (JObj ((''if'', c) # others)) ''else'' = Some e"
  proof -
    define E where "E = JObj ((''if'', c) # others)"
    define ds0 where "ds0 = markCovered (generatePathId E p) ds"
    obtain r where r: "generatePathId E p = p @ CHR '':'' # r"
      using generatePathId_shape by blast
    obtain tt where tt: "generatePathId t (p @ ''.then'') = (p @ ''.then'') @ CHR '':'' # tt"
      using generatePathId_shape by blast
    obtain et where et: "generatePathId e (p @ ''.else'') = (p @ ''.else'') @ CHR '':'' # et"
      using generatePathId_shape by blast
    have S0: "coveredPaths ds0 = Some (insert (generatePathId E p) S)"
      unfolding ds0_def markCovered_def using S by simp
    have "grows (p @ ''.if'') ds0 (snd (tryEvaluate c inputs (p @ ''.if'') ds0))"
      by (rule tryEvaluate_grows)
    then have g1: "grows (p @ ''.if'') ds0 ds1" using c unfolding ds0_def E_def by simp
    then obtain S1 where S1: "coveredPaths ds1 = Some S1"
      and S1b: "\<And>x. x \<in> S1 \<Longrightarrow> x \<in> insert (generatePathId E p) S \<or> (\<exists>u. x = (p @ ''.if'') @ u)"
      unfolding grows_def using S0 by auto
    have st: "snd (tryEvaluate E inputs p ds)
       = (if js_Boolean cond then snd (tryEvaluate t inputs (p @ ''.then'') ds1)
          else snd (tryEvaluate e inputs (p @ ''.else'') ds1))"
      unfolding E_def using flat_if_state [OF k c] t e by simp
    show ?thesis
    proof (cases "js_Boolean cond")
      case True
      then have fin: "snd (tryEvaluate E inputs p ds) = snd (tryEvaluate t inputs (p @ ''.then'') ds1)"
        using st by simp
      have a: "generatePathId t (p @ ''.then'') \<in> S'"
        using marked_self [OF S1, of t inputs "p @ ''.then''"] S' fin unfolding E_def by auto
      have "grows (p @ ''.then'') ds1 (snd (tryEvaluate t inputs (p @ ''.then'') ds1))"
        by (rule tryEvaluate_grows)
      then have S'b: "\<And>x. x \<in> S' \<Longrightarrow> x \<in> S1 \<or> (\<exists>u. x = (p @ ''.then'') @ u)"
        unfolding grows_def using S1 S' fin E_def by auto
      have b: "generatePathId e (p @ ''.else'') \<notin> S'" if n: "generatePathId e (p @ ''.else'') \<notin> S"
      proof
        assume "generatePathId e (p @ ''.else'') \<in> S'"
        then consider "generatePathId e (p @ ''.else'') \<in> S"
          | "generatePathId e (p @ ''.else'') = generatePathId E p"
          | u where "generatePathId e (p @ ''.else'') = (p @ ''.if'') @ u"
          | u where "generatePathId e (p @ ''.else'') = (p @ ''.then'') @ u"
          using S'b S1b by blast
        then show False
          using n by cases (simp_all add: et r)
      qed
      show ?thesis using True a b by simp
    next
      case False
      then have fin: "snd (tryEvaluate E inputs p ds) = snd (tryEvaluate e inputs (p @ ''.else'') ds1)"
        using st by simp
      have a: "generatePathId e (p @ ''.else'') \<in> S'"
        using marked_self [OF S1, of e inputs "p @ ''.else''"] S' fin unfolding E_def by auto
      have "grows (p @ ''.else'') ds1 (snd (tryEvaluate e inputs (p @ ''.else'') ds1))"
        by (rule tryEvaluate_grows)
      then have S'b: "\<And>x. x \<in> S' \<Longrightarrow> x \<in> S1 \<or> (\<exists>u. x = (p @ ''.else'') @ u)"
        unfolding grows_def using S1 S' fin E_def by auto
      have b: "generatePathId t (p @ ''.then'') \<notin> S'" if n: "generatePathId t (p @ ''.then'') \<notin> S"
      proof
        assume "generatePathId t (p @ ''.then'') \<in> S'"
        then consider "generatePathId t (p @ ''.then'') \<in> S"
          | "generatePathId t (p @ ''.then'') = generatePathId E p"
          | u where "generatePathId t (p @ ''.then'') = (p @ ''.if'') @ u"
          | u where "generatePathId t (p @ ''.then'') = (p @ ''.else'') @ u"
          using S'b S1b by blast
        then show False
          using n by cases (simp_all add: tt r)
      qed
      show ?thesis using False a b by simp
    qed
  qed
  show ?thesis using ex nin gen by blast
qed


theorem untaken_branch_not_covered_witness:
  "coveredPaths newTracker = Some {}
   \<and> (''then'' \<in> set (map fst [(''then'', JStr ''A''), (''else'', JStr ''B'')])
        \<or> ''else'' \<in> set (map fst [(''then'', JStr ''A''), (''else'', JStr ''B'')]))
   \<and> tryEvaluate (JBool True) noInputs (''root'' @ ''.if'')
         (markCovered (generatePathId (JObj ((''if'', JBool True)
             # [(''then'', JStr ''A''), (''else'', JStr ''B'')])) ''root'') newTracker)
       = (Inr (VBool True),
          \<lparr>coveredPaths = Some {''root.if:true'', ''root:{else,if,then}''}, heap_next = 0\<rparr>)
   \<and> coveredPaths (snd (tryEvaluate (JObj ((''if'', JBool True)
             # [(''then'', JStr ''A''), (''else'', JStr ''B'')])) noInputs ''root'' newTracker))
       = Some {generatePathId (JStr ''A'') ''root.then'', ''root.if:true'', ''root:{else,if,then}''}
   \<and> js_Boolean (VBool True)
   \<and> generatePathId (JStr ''A'') (''root'' @ ''.then'')
       \<in> {generatePathId (JStr ''A'') ''root.then'', ''root.if:true'', ''root:{else,if,then}''}
   \<and> generatePathId (JStr ''B'') (''root'' @ ''.else'')
       \<notin> {generatePathId (JStr ''A'') ''root.then'', ''root.if:true'', ''root:{else,if,then}''}"
proof -
  have h1: "coveredPaths newTracker = Some {}" by (simp add: newTracker_def)
  have h2: "''then'' \<in> set (map fst [(''then'', JStr ''A''), (''else'', JStr ''B'')])
        \<or> ''else'' \<in> set (map fst [(''then'', JStr ''A''), (''else'', JStr ''B'')])" by simp
  have h3: "tryEvaluate (JBool True) noInputs (''root'' @ ''.if'')
         (markCovered (generatePathId (JObj ((''if'', JBool True)
             # [(''then'', JStr ''A''), (''else'', JStr ''B'')])) ''root'') newTracker)
       = (Inr (VBool True),
          \<lparr>coveredPaths = Some {''root.if:true'', ''root:{else,if,then}''}, heap_next = 0\<rparr>)"
    by (simp add: diag_simps)
  have h4: "coveredPaths (snd (tryEvaluate (JObj ((''if'', JBool True)
             # [(''then'', JStr ''A''), (''else'', JStr ''B'')])) noInputs ''root'' newTracker))
       = Some {generatePathId (JStr ''A'') ''root.then'', ''root.if:true'', ''root:{else,if,then}''}"
    by (simp add: diag_simps)
  have h5: "get_prop (JObj ((''if'', JBool True) # [(''then'', JStr ''A''), (''else'', JStr ''B'')]))
              ''then'' = Some (JStr ''A'')"
    and h6: "get_prop (JObj ((''if'', JBool True) # [(''then'', JStr ''A''), (''else'', JStr ''B'')]))
              ''else'' = Some (JStr ''B'')"
    and h7: "js_Boolean (VBool True)"
    and h8: "generatePathId (JStr ''B'') (''root'' @ ''.else'') \<notin> {}"
    by simp_all
  from untaken_branch_not_covered [where ds = newTracker and S = "{}"
      and others = "[(''then'', JStr ''A''), (''else'', JStr ''B'')]" and c = "JBool True"
      and inputs = noInputs and p = "''root''" and cond = "VBool True"
      and ?ds1.0 = "\<lparr>coveredPaths = Some {''root.if:true'', ''root:{else,if,then}''}, heap_next = 0\<rparr>"
      and S' = "{generatePathId (JStr ''A'') ''root.then'', ''root.if:true'', ''root:{else,if,then}''}"
      and t = "JStr ''A''" and e = "JStr ''B''"]
    h1 h2 h3 h4 h5 h6 h7 h8
  have "generatePathId (JStr ''A'') (''root'' @ ''.then'')
       \<in> {generatePathId (JStr ''A'') ''root.then'', ''root.if:true'', ''root:{else,if,then}''}
     \<and> generatePathId (JStr ''B'') (''root'' @ ''.else'')
       \<notin> {generatePathId (JStr ''A'') ''root.then'', ''root.if:true'', ''root:{else,if,then}''}"
    by blast
  with h1 h2 h3 h4 h7 show ?thesis by blast
qed

text \<open>
  The claim as stated fails: on the encoding it names, \<open>if\<close> with the payload
  \<open>{condition: true, then: "A", else: "B"}\<close>, the diagnostic evaluator finds no \<open>then\<close> or
  \<open>else\<close> key beside \<open>if\<close>, returns the placeholder \<open><if>\<close> and records the root only:
  the \<open>then\<close> branch is not covered.
\<close>

theorem nested_if_covers_no_branch:
  "coveragePass (JObj [(''if'', JObj [(''condition'', JBool True), (''then'', JStr ''A''),
                                        (''else'', JStr ''B'')])]) noInputs
     = (Inr (VStr ''<if>''), \<lparr>coveredPaths = Some {''root:{if}''}, heap_next = 0\<rparr>)
   \<and> generatePathId (JStr ''A'') ''root.if.then'' \<notin> {''root:{if}''}
   \<and> generatePathId (JStr ''A'') ''root.then'' \<notin> {''root:{if}''}"
  by (simp add: diag_simps)

subsection \<open>The builder only adds to the tracker\<close>

lemma grows_pair:
  "(\<And>a b. v = (a, b) \<Longrightarrow> grows p s (snd (f a b)))
   \<Longrightarrow> grows p s (snd (case v of (a, b) \<Rightarrow> f a b))"
  by (cases v) simp

lemma tryEvaluate_grows_ext: "grows p s (snd (tryEvaluate x c (p @ t) s))"
  using tryEvaluate_grows [of "p @ t" s x c] by (rule grows_prefix)

lemma build_items_grows:
  assumes "\<And>x c l q s. x \<in> set items \<Longrightarrow> grows q s (snd (bld x c l q s))"
    and "\<And>i. \<exists>t. mkPrefix i = p @ t"
  shows "grows p ds (snd (build_items bld mkLabel mkPrefix context idx items ds))"
  using assms(1)
proof (induction items arbitrary: idx ds)
  case Nil
  show ?case by (simp add: grows_refl)
next
  case (Cons item items)
  obtain t where t: "mkPrefix idx = p @ t" using assms(2) by blast
  have a: "grows p ds (snd (bld item context (mkLabel idx) (mkPrefix idx) ds))"
    using Cons.prems [where x = item and c = "context" and l = "mkLabel idx" and q = "p @ t"
        and s = ds] t grows_prefix by simp
  have b: "\<And>i s. grows p s (snd (build_items bld mkLabel mkPrefix context i items s))"
    using Cons.IH Cons.prems by simp
  show ?case
    unfolding build_items.simps
    by (rule grows_bind [OF a]) (simp add: snd_propagate b)
qed

lemma build_let_bindings_grows:
  assumes "\<And>x c l q s. x \<in> snd ` set entries \<Longrightarrow> grows q s (snd (bld x c l q s))"
  shows "grows p ds (snd (build_let_bindings bld p context entries ds))"
  using assms
proof (induction entries arbitrary: ds)
  case Nil
  show ?case by (simp add: grows_refl)
next
  case (Cons entry entries)
  have a: "\<And>c l t s. grows p s (snd (bld (snd entry) c l (p @ t) s))"
    using Cons.prems [where x = "snd entry"] grows_prefix by (metis list.set_intros(1) image_eqI)
  have b: "\<And>s. grows p s (snd (build_let_bindings bld p context entries s))"
    using Cons.IH Cons.prems by simp
  show ?case
    unfolding build_let_bindings.simps
    by (intro grows_bind) (simp_all add: snd_propagate a b tryEvaluate_grows_ext grows_refl)
qed

lemma build_flat_bindings_grows:
  assumes "\<And>x c l q s. x \<in> snd ` set entries \<Longrightarrow> grows q s (snd (bld x c l q s))"
  shows "grows p ds (snd (build_flat_bindings bld p entries newContext ds))"
  using assms
proof (induction entries arbitrary: newContext ds)
  case Nil
  show ?case by (simp add: grows_refl)
next
  case (Cons entry entries)
  have a: "\<And>c l t s. grows p s (snd (bld (snd entry) c l (p @ t) s))"
    using Cons.prems [where x = "snd entry"] grows_prefix by (metis list.set_intros(1) image_eqI)
  have b: "\<And>n s. grows p s (snd (build_flat_bindings bld p entries n s))"
    using Cons.IH Cons.prems by simp
  show ?case
    unfolding build_flat_bindings.simps
    by (intro grows_bind grows_pair) (simp_all add: a b tryEvaluate_grows_ext grows_refl)
qed

lemma build_keys_grows:
  assumes "\<And>x k c l q s. get_prop expr k = Some x \<Longrightarrow> grows q s (snd (bld x c l q s))"
  shows "grows p ds (snd (build_keys bld expr p context keys ds))"
proof (induction keys arbitrary: ds)
  case Nil
  show ?case by (simp add: grows_refl)
next
  case (Cons key keys)
  have a: "\<And>x c l t s. get_prop expr key = Some x \<Longrightarrow> grows p s (snd (bld x c l (p @ t) s))"
    using assms grows_prefix by blast
  have b: "\<And>s. grows p s (snd (build_keys bld expr p context keys s))"
    using Cons.IH by simp
  show ?case
    unfolding build_keys.simps
    by (intro grows_bind grows_opt) (simp_all add: snd_propagate a b grows_refl)
qed


lemma buildLogicTree_grows: "grows p ds (snd (buildLogicTree e c l p ds))"
proof (induction e arbitrary: c l p ds rule: measure_induct_rule [where f = esize])
  case (less e)
  have ih0: "\<And>x c' l' q s. esize x < esize e \<Longrightarrow> grows q s (snd (buildLogicTree x c' l' q s))"
    by (rule less)
  have ih: "\<And>x c' l' t s. esize x < esize e \<Longrightarrow> grows p s (snd (buildLogicTree x c' l' (p @ t) s))"
    using ih0 grows_prefix by blast
  have ihp: "\<And>x k c' l' t s. get_prop e k = Some x
      \<Longrightarrow> grows p s (snd (buildLogicTree x c' l' (p @ t) s))"
    using ih esize_prop by blast
  have ihk: "\<And>c' ks s. grows p s (snd (build_keys buildLogicTree e p c' ks s))"
    using ih0 esize_prop by (intro build_keys_grows) blast
  have ihf: "\<And>lv c' s. get_prop e ''let'' = Some lv
      \<Longrightarrow> grows p s (snd (build_flat_bindings buildLogicTree p (entries_of lv) c' s))"
    using ih0 esize_prop_entry by (intro build_flat_bindings_grows) blast
  show ?case
  proof (cases e)
    case (JArr items)
    have "grows p ds (snd (build_items buildLogicTree (\<lambda>index. ''['' @ string_of_nat index @ '']'')
                   (\<lambda>index. p @ ''['' @ string_of_nat index @ '']'') c 0 items ds))"
      using ih0 JArr esize_item by (intro build_items_grows) auto
    then show ?thesis
      unfolding JArr
      by (subst buildLogicTree.simps) (simp add: Let_def snd_propagate)
  next
    case (JObj kvs)
    show ?thesis
    proof (cases kvs)
      case Nil
      show ?thesis unfolding JObj Nil
        by (subst buildLogicTree.simps) (simp add: Let_def grows_refl)
    next
      case (Cons kv others)
      obtain key vl where kv: "kv = (key, vl)" by (cases kv)
      note e = JObj Cons kv
      have ihv: "\<And>c' l' t s. grows p s (snd (buildLogicTree vl c' l' (p @ t) s))"
        using ih esize_first [of vl key others] unfolding e by blast
      have ihi: "\<And>items mkl mk c' i s. vl = JArr items \<Longrightarrow> (\<And>i. \<exists>t. mk i = p @ t)
          \<Longrightarrow> grows p s (snd (build_items buildLogicTree mkl mk c' i items s))"
        using ih0 esize_first_item [of _ _ key others] unfolding e
        by (intro build_items_grows) auto
      have ihl: "\<And>c' s. grows p s (snd (build_let_bindings buildLogicTree p c' (entries_of vl) s))"
        using ih0 esize_first_entry' [of key vl _ _ others] unfolding e
        by (intro build_let_bindings_grows) blast
      show ?thesis
        unfolding e
        apply (subst buildLogicTree.simps)
        apply (simp only: Let_def jv.case list.case prod.case)
        apply (intro grows_intros grows_pair)
        apply (simp_all add: grows_refl snd_propagate ihv ihl ihk [unfolded e]
            ihp [unfolded e] ihf [unfolded e] tryEvaluate_grows tryEvaluate_grows_ext
            del: get_prop.simps build_keys.simps)
        apply (rule ihi, simp, simp)
        done
    qed
  qed (simp_all add: buildLogicTree.simps Let_def grows_refl)
qed


subsection \<open>The flag of a node\<close>

definition flagged :: "bool option \<Rightarrow> TreeNode dresult \<Rightarrow> bool" where
  "flagged cv r = (\<forall>node s. r = (Inr node, s) \<longrightarrow> covered (data node) = cv)"

lemma flagged_if:
  "(b \<Longrightarrow> flagged cv x) \<Longrightarrow> (\<not> b \<Longrightarrow> flagged cv y) \<Longrightarrow> flagged cv (if b then x else y)"
  by simp

lemma flagged_opt:
  "(ov = None \<Longrightarrow> flagged cv x) \<Longrightarrow> (\<And>v. ov = Some v \<Longrightarrow> flagged cv (f v))
   \<Longrightarrow> flagged cv (case ov of None \<Rightarrow> x | Some v \<Rightarrow> f v)"
  by (cases ov) simp_all

lemma flagged_bind:
  "(\<And>v s. flagged cv (f v s))
   \<Longrightarrow> flagged cv (case m of (Inl e, s) \<Rightarrow> (Inl e, s) | (Inr v, s) \<Rightarrow> f v s)"
  unfolding flagged_def by (auto split: prod.splits sum.splits)

lemma flagged_pair:
  "(\<And>a b. flagged cv (f a b)) \<Longrightarrow> flagged cv (case v of (a, b) \<Rightarrow> f a b)"
  by (cases v) simp

lemma flagged_jarr:
  "(\<And>xs. flagged cv (f xs)) \<Longrightarrow> flagged cv g
   \<Longrightarrow> flagged cv (case vl of JArr xs \<Rightarrow> f xs | _ \<Rightarrow> g)"
  by (cases vl) simp_all

lemma flagged_node: "flagged cv (Inr (mkNode l t v r cv ch), s)"
  unfolding flagged_def mkNode_def by simp

lemma flagged_error: "flagged cv (Inl e, s)"
  unfolding flagged_def by simp

lemmas flagged_intros = flagged_if flagged_opt flagged_bind flagged_pair flagged_jarr
  flagged_node flagged_error

lemma buildLogicTree_flagged:
  "flagged (isCovered (generatePathId e p) ds) (buildLogicTree e c l p ds)"
proof (cases e)
  case (JObj kvs)
  show ?thesis
  proof (cases kvs)
    case Nil
    show ?thesis unfolding JObj Nil
      by (subst buildLogicTree.simps) (simp add: Let_def flagged_node)
  next
    case (Cons kv others)
    obtain key vl where kv: "kv = (key, vl)" by (cases kv)
    show ?thesis
      unfolding JObj Cons kv
      apply (subst buildLogicTree.simps)
      apply (simp only: Let_def jv.case list.case prod.case)
      apply (intro flagged_intros)
      done
  qed
qed (subst buildLogicTree.simps, simp only: Let_def jv.case, intro flagged_intros)+


lemmas build_simps = buildLogicTree.simps displayTree_def mkNode_def isCovered_def label_or_def

text \<open>
  Claim C4 (as amended). The evaluator and the builder compute path identifiers with the
  same function, from the route and the structural signature of the node only: two
  mappings with the same sorted keys, two sequences of the same length, or the same
  scalar, reached by the same route, have the same identifier. The flag of a display
  node is the membership of its path identifier in the tracker at the moment the node is
  built. The tracker only grows, during the diagnostic pass, which records the
  identifier of every node it visits, and during the build, so a node whose identifier
  is in the set the pass produced is marked covered.
\<close>

theorem covered_flag_is_membership:
  "(buildLogicTree expr inputs label pathPrefix ds = (Inr node, ds') \<longrightarrow>
      covered (data node) = isCovered (generatePathId expr pathPrefix) ds)
   \<and> (coveredPaths ds = Some S \<longrightarrow>
        (\<exists>S'. coveredPaths (snd (tryEvaluate expr inputs pathPrefix ds)) = Some S'
              \<and> S \<subseteq> S' \<and> generatePathId expr pathPrefix \<in> S')
      \<and> (\<exists>S'. coveredPaths (snd (buildLogicTree expr inputs label pathPrefix ds)) = Some S'
              \<and> S \<subseteq> S'))
   \<and> (sort_keys (map fst kvs) = sort_keys (map fst kvs') \<longrightarrow>
        generatePathId (JObj kvs) pathPrefix = generatePathId (JObj kvs') pathPrefix)
   \<and> (length xs = length ys \<longrightarrow>
        generatePathId (JArr xs) pathPrefix = generatePathId (JArr ys) pathPrefix)"
proof -
  have a: "covered (data node) = isCovered (generatePathId expr pathPrefix) ds"
    if "buildLogicTree expr inputs label pathPrefix ds = (Inr node, ds')"
    using buildLogicTree_flagged [of expr pathPrefix ds inputs label] that
    unfolding flagged_def by blast
  have b: "\<exists>S'. coveredPaths (snd (tryEvaluate expr inputs pathPrefix ds)) = Some S'
              \<and> S \<subseteq> S' \<and> generatePathId expr pathPrefix \<in> S'"
    if "coveredPaths ds = Some S"
    using tryEvaluate_grows_marked [of pathPrefix expr ds inputs] that
    unfolding grows_def markCovered_def by auto
  have c: "\<exists>S'. coveredPaths (snd (buildLogicTree expr inputs label pathPrefix ds)) = Some S'
              \<and> S \<subseteq> S'"
    if "coveredPaths ds = Some S"
    using buildLogicTree_grows [of pathPrefix ds expr inputs label] that
    unfolding grows_def by auto
  show ?thesis using a b c by (simp add: generatePathId_def)
qed

theorem covered_flag_is_membership_witness:
  "buildLogicTree (JStr ''x'') noInputs ''root'' ''root'' newTracker
     = (Inr (mkNode ''root'' ''string'' ([CHR 0x22, CHR ''x'', CHR 0x22]) (JStr ''x'') (Some False) None), newTracker)
   \<and> covered (data (mkNode ''root'' ''string'' ([CHR 0x22, CHR ''x'', CHR 0x22]) (JStr ''x'') (Some False) None))
       = isCovered (generatePathId (JStr ''x'') ''root'') newTracker
   \<and> coveredPaths newTracker = Some {}
   \<and> generatePathId (JStr ''x'') ''root''
       \<in> the (coveredPaths (snd (tryEvaluate (JStr ''x'') noInputs ''root'' newTracker)))
   \<and> sort_keys (map fst [(''b'', JNull), (''a'', JNum 1)])
       = sort_keys (map fst [(''a'', JStr ''y''), (''b'', JStr ''z'')])
   \<and> generatePathId (JObj [(''b'', JNull), (''a'', JNum 1)]) ''root''
       = generatePathId (JObj [(''a'', JStr ''y''), (''b'', JStr ''z'')]) ''root''
   \<and> length [JNull] = length [JNum 1]
   \<and> generatePathId (JArr [JNull]) ''root'' = generatePathId (JArr [JNum 1]) ''root''"
proof -
  have h1: "buildLogicTree (JStr ''x'') noInputs ''root'' ''root'' newTracker
     = (Inr (mkNode ''root'' ''string'' ([CHR 0x22, CHR ''x'', CHR 0x22]) (JStr ''x'') (Some False) None), newTracker)"
    by (simp add: build_simps diag_simps)
  have h2: "coveredPaths newTracker = Some {}" by (simp add: newTracker_def)
  have h3: "sort_keys (map fst [(''b'', JNull), (''a'', JNum 1)])
       = sort_keys (map fst [(''a'', JStr ''y''), (''b'', JStr ''z'')])"
    by (simp add: sort_keys_def)
  have h4: "length [JNull] = length [JNum 1]" by simp
  from covered_flag_is_membership [where expr = "JStr ''x''" and inputs = noInputs
      and label = "''root''" and pathPrefix = "''root''" and ds = newTracker and ds' = newTracker
      and node = "mkNode ''root'' ''string'' ([CHR 0x22, CHR ''x'', CHR 0x22]) (JStr ''x'') (Some False) None"
      and S = "{}" and kvs = "[(''b'', JNull), (''a'', JNum 1)]"
      and kvs' = "[(''a'', JStr ''y''), (''b'', JStr ''z'')]" and xs = "[JNull]" and ys = "[JNum 1]"]
    h1 h2 h3 h4
  show ?thesis by auto
qed

text \<open>
  The claim as stated fails in one direction: the builder calls \<open>tryEvaluate\<close> with the
  same tracker while it builds, and what these calls record counts as covered. For
  \<open>{if: "x"}\<close> the pass records the root only (a lone \<open>if\<close> is not a conditional for the
  evaluator), yet the tree marks the node of \<open>"x"\<close> covered, although its path identifier
  is not in the set the pass produced.
\<close>

theorem covered_without_being_in_the_pass:
  "coveredPaths (snd (coveragePass (JObj [(''if'', JStr ''x'')]) noInputs)) = Some {''root:{if}''}
   \<and> generatePathId (JStr ''x'') ''root.if'' \<notin> {''root:{if}''}
   \<and> fst (displayTree (JObj [(''if'', JStr ''x'')]) noInputs)
       = Inr (TreeNode
           \<lparr>node_label = ''if'', node_type = ''conditional'', node_value = [CHR 0x22, CHR ''x'', CHR 0x22],
              raw = JObj [(''if'', JStr ''x'')], covered = Some True\<rparr>
           (Some [TreeNode
              \<lparr>node_label = ''condition'', node_type = ''string'', node_value = [CHR 0x22, CHR ''x'', CHR 0x22],
                 raw = JStr ''x'', covered = Some True\<rparr> None]))"
  by (simp add: build_simps diag_simps)

section \<open>Agreement of the strict and the diagnostic evaluator\<close>

subsection \<open>The expressions both evaluators read the same way\<close>

text \<open>The shape of an expression whose value is a string in both evaluators, and of one
  whose value is not an array or object.\<close>

definition string_shaped :: "jv \<Rightarrow> bool" where
  "string_shaped e =
     (case e of
        JStr s \<Rightarrow> True
      | JObj [(k, v)] \<Rightarrow> k = ''concat'' \<or> k = ''uppercase'' \<or> k = ''lowercase''
      | _ \<Rightarrow> False)"

definition scalar_shaped :: "jv \<Rightarrow> bool" where
  "scalar_shaped e =
     (case e of
        JArr items \<Rightarrow> False
      | JObj kvs \<Rightarrow> string_shaped e \<or> (case kvs of [(k, v)] \<Rightarrow> k = ''equals'' | _ \<Rightarrow> False)
      | _ \<Rightarrow> True)"

text \<open>The common fragment: literals other than variable references, sequences, \<open>concat\<close>
  of a direct array without literal nulls, \<open>uppercase\<close> and \<open>lowercase\<close> of a direct
  string-valued payload, and \<open>equals\<close> of two operands that are not sequences.\<close>

function common_fragment :: "jv \<Rightarrow> bool" where
  "common_fragment e =
     (case e of
        JNull \<Rightarrow> True
      | JBool b \<Rightarrow> True
      | JNum n \<Rightarrow> True
      | JNaN \<Rightarrow> True
      | JStr s \<Rightarrow> \<not> startsWith_dollar s
      | JArr items \<Rightarrow> (\<forall>x \<in> set items. common_fragment x)
      | JObj kvs \<Rightarrow>
          (case kvs of
             [] \<Rightarrow> False
           | (k, v) # others \<Rightarrow>
               others = [] \<and>
               (if k = ''concat'' then
                  (case v of
                     JArr items \<Rightarrow> (\<forall>x \<in> set items. x \<noteq> JNull \<and> common_fragment x)
                   | _ \<Rightarrow> False)
                else if k = ''uppercase'' \<or> k = ''lowercase'' then
                  string_shaped v \<and> common_fragment v
                else if k = ''equals'' then
                  (case get_prop v ''left'' of
                     None \<Rightarrow> False
                   | Some l \<Rightarrow>
                       (case get_prop v ''right'' of
                          None \<Rightarrow> False
                        | Some r \<Rightarrow>
                            scalar_shaped l \<and> scalar_shaped r
                            \<and> common_fragment l \<and> common_fragment r))
                else False)))"
  by pat_completeness auto
termination
  apply (relation "measure esize")
  apply (simp only: wf_measure)
  apply (simp_all only: in_measure)
  apply (erule esize_item | erule esize_first' | (erule esize_first_item', assumption)
      | erule esize_prop | (erule esize_first_prop', assumption))+
  done

declare common_fragment.simps [simp del]


lemma content_of_primitive: "is_primitive v \<Longrightarrow> content_of w = content_of v \<Longrightarrow> w = v"
  by (cases v; cases w) auto

lemma content_of_null: "content_of v = content_of w \<Longrightarrow> (v = VNull) = (w = VNull)"
  by (cases v; cases w) auto

lemma js_join_content:
  assumes "\<And>x y. x \<in> set xs \<Longrightarrow> content_of x = content_of y \<Longrightarrow> js_String x = js_String y"
    and "map content_of xs = map content_of ys"
  shows "js_join sep xs = js_join sep ys"
  using assms
proof (induction xs arbitrary: ys)
  case Nil
  then show ?case by simp
next
  case (Cons x xs)
  from Cons.prems(2) obtain y ys' where ys: "ys = y # ys'" and c: "content_of x = content_of y"
    and r: "map content_of xs = map content_of ys'" by (cases ys) auto
  have h: "(if x = VNull then [] else js_String x) = (if y = VNull then [] else js_String y)"
    using Cons.prems(1) [of x y] c content_of_null [OF c] by simp
  have t: "js_join sep xs = js_join sep ys'" using Cons.IH [OF _ r] Cons.prems(1) by simp
  show ?case
  proof (cases xs)
    case Nil
    then have "ys' = []" using r by simp
    then show ?thesis using Nil ys h by simp
  next
    case (Cons x' xs')
    then obtain y' ys'' where "ys' = y' # ys''" using r by (cases ys') auto
    then show ?thesis using Cons ys h t by simp
  qed
qed

lemma js_String_content: "content_of v = content_of w \<Longrightarrow> js_String v = js_String w"
proof (induction v arbitrary: w)
  case (VArr a xs)
  from VArr.prems obtain b ys where w: "w = VArr b ys" and m: "map content_of xs = map content_of ys"
    by (cases w) auto
  have "js_join '','' xs = js_join '','' ys"
    using VArr.IH m by (intro js_join_content) auto
  then show ?case using w by simp
next
  case (VObj a kvs)
  then show ?case by (cases w) auto
next
  case VNull
  then show ?case by (cases w) auto
next
  case (VBool b)
  then show ?case by (cases w) auto
next
  case (VNum n)
  then show ?case by (cases w) auto
next
  case VNaN
  then show ?case by (cases w) auto
next
  case (VStr s)
  then show ?case by (cases w) auto
qed

lemma js_join_no_null: "VNull \<notin> set vs \<Longrightarrow> js_join [] vs = concat (map js_String vs)"
proof (induction vs)
  case Nil
  show ?case by simp
next
  case (Cons v vs)
  then show ?case by (cases vs) auto
qed


text \<open>What is shown of an expression of the fragment, for every scope, context, route and
  tracker: both evaluators return, and the values have the same type and content.\<close>

definition agree :: "jv \<Rightarrow> bool" where
  "agree e =
     (\<forall>st c p ds. \<exists>v st' w ds'.
        evaluate e st = (Inr v, st') \<and> tryEvaluate e c p ds = (Inr w, ds')
        \<and> content_of w = content_of v
        \<and> (e \<noteq> JNull \<longrightarrow> v \<noteq> VNull)
        \<and> (string_shaped e \<longrightarrow> (\<exists>s. v = VStr s))
        \<and> (scalar_shaped e \<longrightarrow> is_primitive v))"

lemma agreeD:
  assumes "agree e"
  obtains v st' w ds' where "evaluate e st = (Inr v, st')" "tryEvaluate e c p ds = (Inr w, ds')"
    "content_of w = content_of v" "e \<noteq> JNull \<Longrightarrow> v \<noteq> VNull"
    "string_shaped e \<Longrightarrow> \<exists>s. v = VStr s" "scalar_shaped e \<Longrightarrow> is_primitive v"
  using assms unfolding agree_def by meson

lemma items_agree:
  assumes "\<And>x. x \<in> set items \<Longrightarrow> agree x"
  shows "\<exists>vs st' ws ds'.
           evaluate_items evaluate items st = (Inr vs, st')
         \<and> tryEvaluate_items tryEvaluate mk c i items ds = (Inr ws, ds')
         \<and> map content_of ws = map content_of vs
         \<and> (JNull \<notin> set items \<longrightarrow> VNull \<notin> set vs)"
  using assms
proof (induction items arbitrary: st i ds)
  case Nil
  show ?case by simp
next
  case (Cons item items)
  have "agree item" using Cons.prems by simp
  then obtain v st1 w ds1 where
    a: "evaluate item st = (Inr v, st1)" "tryEvaluate item c (mk i) ds = (Inr w, ds1)"
       "content_of w = content_of v" "item \<noteq> JNull \<Longrightarrow> v \<noteq> VNull"
    by (rule agreeD [where st = st and c = c and p = "mk i" and ds = ds]) blast
  obtain vs st' ws ds' where
    b: "evaluate_items evaluate items st1 = (Inr vs, st')"
       "tryEvaluate_items tryEvaluate mk c (Suc i) items ds1 = (Inr ws, ds')"
       "map content_of ws = map content_of vs" "JNull \<notin> set items \<longrightarrow> VNull \<notin> set vs"
    using Cons.IH [of st1 "Suc i" ds1] Cons.prems by auto
  show ?case using a b by auto
qed


lemma map_js_String_content:
  "map content_of ws = map content_of vs \<Longrightarrow> map js_String ws = map js_String vs"
proof (induction ws arbitrary: vs)
  case Nil
  then show ?case by simp
next
  case (Cons w ws)
  then obtain v vs' where "vs = v # vs'" by (cases vs) auto
  with Cons show ?case by (auto dest: js_String_content)
qed

lemma string_shaped_no_value: "string_shaped v \<Longrightarrow> \<not> has_key v ''value''"
  unfolding string_shaped_def by (auto split: jv.splits list.splits)

lemma string_shaped_scalar: "string_shaped v \<Longrightarrow> scalar_shaped v"
  unfolding string_shaped_def scalar_shaped_def by (auto split: jv.splits list.splits)

lemma common_fragment_concat:
  "common_fragment (JObj [(''concat'', v)])
   = (case v of JArr items \<Rightarrow> (\<forall>x \<in> set items. x \<noteq> JNull \<and> common_fragment x) | _ \<Rightarrow> False)"
  by (subst common_fragment.simps) simp

lemma common_fragment_uppercase:
  "common_fragment (JObj [(''uppercase'', v)]) = (string_shaped v \<and> common_fragment v)"
  by (subst common_fragment.simps) simp

lemma common_fragment_lowercase:
  "common_fragment (JObj [(''lowercase'', v)]) = (string_shaped v \<and> common_fragment v)"
  by (subst common_fragment.simps) simp

lemma common_fragment_equals:
  "common_fragment (JObj [(''equals'', v)])
   = (case get_prop v ''left'' of
        None \<Rightarrow> False
      | Some l \<Rightarrow>
          (case get_prop v ''right'' of
             None \<Rightarrow> False
           | Some r \<Rightarrow> scalar_shaped l \<and> scalar_shaped r \<and> common_fragment l \<and> common_fragment r))"
  by (subst common_fragment.simps) simp

lemma common_fragment_object:
  assumes "common_fragment (JObj kvs)"
  shows "\<exists>k v. kvs = [(k, v)]
           \<and> (k = ''concat'' \<or> k = ''uppercase'' \<or> k = ''lowercase'' \<or> k = ''equals'')"
proof (cases kvs)
  case Nil
  then show ?thesis using assms by (subst (asm) common_fragment.simps) simp
next
  case (Cons kv others)
  obtain k v where kv: "kv = (k, v)" by (cases kv)
  have "others = [] \<and> (k = ''concat'' \<or> k = ''uppercase'' \<or> k = ''lowercase'' \<or> k = ''equals'')"
    using assms unfolding Cons kv by (subst (asm) common_fragment.simps) (simp split: if_splits, blast)
  then show ?thesis unfolding Cons kv by simp
qed

lemma common_fragment_agree: "common_fragment e \<Longrightarrow> agree e"
proof (induction e rule: measure_induct_rule [where f = esize])
  case (less e)
  note frag = less.prems
  show ?case
  proof (cases e)
    case JNull
    show ?thesis unfolding agree_def JNull
      by (simp add: evaluate.simps tryEvaluate.simps Let_def string_shaped_def scalar_shaped_def)
  next
    case (JBool b)
    show ?thesis unfolding agree_def JBool
      by (simp add: evaluate.simps tryEvaluate.simps Let_def string_shaped_def scalar_shaped_def)
  next
    case (JNum n)
    show ?thesis unfolding agree_def JNum
      by (simp add: evaluate.simps tryEvaluate.simps Let_def string_shaped_def scalar_shaped_def)
  next
    case JNaN
    show ?thesis unfolding agree_def JNaN
      by (simp add: evaluate.simps tryEvaluate.simps Let_def string_shaped_def scalar_shaped_def)
  next
    case (JStr s)
    have "\<not> startsWith_dollar s"
      using frag unfolding JStr by (subst (asm) common_fragment.simps) simp
    then show ?thesis unfolding agree_def JStr
      by (simp add: evaluate.simps tryEvaluate.simps Let_def string_shaped_def scalar_shaped_def)
  next
    case (JArr items)
    have all: "agree x" if x: "x \<in> set items" for x
    proof -
      have "common_fragment x"
        using frag x unfolding JArr by (subst (asm) common_fragment.simps) simp
      moreover have "esize x < esize e" unfolding JArr using x by (rule esize_item)
      ultimately show "agree x" using less.IH by blast
    qed
    show ?thesis unfolding agree_def
    proof (intro allI)
      fix st c p ds
      define dm where "dm = markCovered (generatePathId (JArr items) p) ds"
      have "\<exists>vs st' ws ds'.
           evaluate_items evaluate items (st\<lparr>next_addr := Suc (next_addr st)\<rparr>) = (Inr vs, st')
         \<and> tryEvaluate_items tryEvaluate (\<lambda>idx. p @ ''['' @ string_of_nat idx @ '']'') c 0 items
               (dm\<lparr>heap_next := Suc (heap_next dm)\<rparr>) = (Inr ws, ds')
         \<and> map content_of ws = map content_of vs
         \<and> (JNull \<notin> set items \<longrightarrow> VNull \<notin> set vs)"
        by (rule items_agree) (rule all)
      then obtain vs st' ws ds' where
        r1: "evaluate_items evaluate items (st\<lparr>next_addr := Suc (next_addr st)\<rparr>) = (Inr vs, st')"
        and r2: "tryEvaluate_items tryEvaluate (\<lambda>idx. p @ ''['' @ string_of_nat idx @ '']'') c 0 items
               (dm\<lparr>heap_next := Suc (heap_next dm)\<rparr>) = (Inr ws, ds')"
        and r3: "map content_of ws = map content_of vs"
        by blast
      have E: "evaluate e st = (Inr (VArr (next_addr st) vs), st')"
        unfolding JArr using r1 by (subst evaluate.simps) (simp add: map_evaluate_def)
      have T: "tryEvaluate e c p ds = (Inr (VArr (heap_next dm) ws), ds')"
        unfolding JArr using r2 unfolding dm_def by (subst tryEvaluate.simps) (simp add: Let_def)
      show "\<exists>v st' w ds'.
            evaluate e st = (Inr v, st') \<and> tryEvaluate e c p ds = (Inr w, ds')
          \<and> content_of w = content_of v
          \<and> (e \<noteq> JNull \<longrightarrow> v \<noteq> VNull)
          \<and> (string_shaped e \<longrightarrow> (\<exists>s. v = VStr s))
          \<and> (scalar_shaped e \<longrightarrow> is_primitive v)"
        unfolding E T using r3 by (simp add: JArr string_shaped_def scalar_shaped_def)
    qed
  next
    case (JObj kvs)
    obtain k v where kvs: "kvs = [(k, v)]"
      and k: "k = ''concat'' \<or> k = ''uppercase'' \<or> k = ''lowercase'' \<or> k = ''equals''"
      using common_fragment_object [OF frag [unfolded JObj]] by blast
    consider (concat) items where "kvs = [(''concat'', JArr items)]"
          "\<And>x. x \<in> set items \<Longrightarrow> x \<noteq> JNull \<and> common_fragment x"
      | (upper) v where "kvs = [(''uppercase'', v)]" "string_shaped v" "common_fragment v"
      | (lower) v where "kvs = [(''lowercase'', v)]" "string_shaped v" "common_fragment v"
      | (equals) v l r where "kvs = [(''equals'', v)]" "get_prop v ''left'' = Some l"
          "get_prop v ''right'' = Some r" "scalar_shaped l" "scalar_shaped r"
          "common_fragment l" "common_fragment r"
    proof -
      assume c1: "\<And>items. kvs = [(''concat'', JArr items)] \<Longrightarrow>
          (\<And>x. x \<in> set items \<Longrightarrow> x \<noteq> JNull \<and> common_fragment x) \<Longrightarrow> thesis"
      assume c2: "\<And>v. kvs = [(''uppercase'', v)] \<Longrightarrow> string_shaped v \<Longrightarrow> common_fragment v \<Longrightarrow> thesis"
      assume c3: "\<And>v. kvs = [(''lowercase'', v)] \<Longrightarrow> string_shaped v \<Longrightarrow> common_fragment v \<Longrightarrow> thesis"
      assume c4: "\<And>v l r. kvs = [(''equals'', v)] \<Longrightarrow> get_prop v ''left'' = Some l \<Longrightarrow>
          get_prop v ''right'' = Some r \<Longrightarrow> scalar_shaped l \<Longrightarrow> scalar_shaped r \<Longrightarrow>
          common_fragment l \<Longrightarrow> common_fragment r \<Longrightarrow> thesis"
      from k show thesis
      proof (elim disjE)
        assume "k = ''concat''"
        then have kv: "kvs = [(''concat'', v)]" using kvs by simp
        have "case v of JArr items \<Rightarrow> (\<forall>x \<in> set items. x \<noteq> JNull \<and> common_fragment x) | _ \<Rightarrow> False"
          using frag unfolding JObj kv common_fragment_concat .
        then obtain items where "v = JArr items" "\<forall>x \<in> set items. x \<noteq> JNull \<and> common_fragment x"
          by (cases v) simp_all
        then show thesis using kv by (intro c1 [of items]) simp_all
      next
        assume "k = ''uppercase''"
        then have kv: "kvs = [(''uppercase'', v)]" using kvs by simp
        have "string_shaped v \<and> common_fragment v"
          using frag unfolding JObj kv common_fragment_uppercase .
        then show thesis using kv by (intro c2 [of v]) simp_all
      next
        assume "k = ''lowercase''"
        then have kv: "kvs = [(''lowercase'', v)]" using kvs by simp
        have "string_shaped v \<and> common_fragment v"
          using frag unfolding JObj kv common_fragment_lowercase .
        then show thesis using kv by (intro c3 [of v]) simp_all
      next
        assume "k = ''equals''"
        then have kv: "kvs = [(''equals'', v)]" using kvs by simp
        have f: "case get_prop v ''left'' of
            None \<Rightarrow> False
          | Some l \<Rightarrow>
              (case get_prop v ''right'' of
                 None \<Rightarrow> False
               | Some r \<Rightarrow> scalar_shaped l \<and> scalar_shaped r \<and> common_fragment l \<and> common_fragment r)"
          using frag unfolding JObj kv common_fragment_equals .
        obtain l where l: "get_prop v ''left'' = Some l" using f by (cases "get_prop v ''left''") simp_all
        obtain r where r: "get_prop v ''right'' = Some r"
          using f unfolding l by (cases "get_prop v ''right''") simp_all
        have "scalar_shaped l \<and> scalar_shaped r \<and> common_fragment l \<and> common_fragment r"
          using f unfolding l r by simp
        then show thesis using kv l r by (intro c4 [of v l r]) simp_all
      qed
    qed
    then show ?thesis
    proof cases
      case concat
      note e = JObj [unfolded concat(1)]
      have all: "agree x" if x: "x \<in> set items" for x
      proof -
        have "esize x < esize e" unfolding e using x by (rule esize_first_item)
        then show "agree x" using less.IH concat(2) x by blast
      qed
      have nonull: "JNull \<notin> set items" using concat(2) by blast
      show ?thesis unfolding agree_def
      proof (intro allI)
        fix st c p ds
        define dm where "dm = markCovered (generatePathId (JObj [(''concat'', JArr items)]) p) ds"
        have "\<exists>vs st' ws ds'.
             evaluate_items evaluate items (st\<lparr>next_addr := Suc (next_addr st)\<rparr>) = (Inr vs, st')
           \<and> tryEvaluate_items tryEvaluate (\<lambda>idx. p @ ''.concat['' @ string_of_nat idx @ '']'') c 0
                 items (dm\<lparr>heap_next := Suc (heap_next dm)\<rparr>) = (Inr ws, ds')
           \<and> map content_of ws = map content_of vs
           \<and> (JNull \<notin> set items \<longrightarrow> VNull \<notin> set vs)"
          by (rule items_agree) (rule all)
        then obtain vs st' ws ds' where
          r1: "evaluate_items evaluate items (st\<lparr>next_addr := Suc (next_addr st)\<rparr>) = (Inr vs, st')"
          and r2: "tryEvaluate_items tryEvaluate (\<lambda>idx. p @ ''.concat['' @ string_of_nat idx @ '']'') c 0
                 items (dm\<lparr>heap_next := Suc (heap_next dm)\<rparr>) = (Inr ws, ds')"
          and r3: "map content_of ws = map content_of vs"
          and r4: "VNull \<notin> set vs"
          using nonull by blast
        have E: "evaluate e st = (Inr (VStr (js_join [] vs)), st')"
          unfolding e using r1
          by (subst evaluate.simps)
             (simp add: dispatch_def executeConcat_def values_of_def map_evaluate_def)
        have T: "tryEvaluate e c p ds
               = (Inr (VStr (concat (map js_String ws))), ds'\<lparr>heap_next := Suc (heap_next ds')\<rparr>)"
          unfolding e using r2 unfolding dm_def by (subst tryEvaluate.simps) (simp add: Let_def)
        have "js_join [] vs = concat (map js_String ws)"
          using js_join_no_null [OF r4] map_js_String_content [OF r3] by simp
        then show "\<exists>v st' w ds'.
            evaluate e st = (Inr v, st') \<and> tryEvaluate e c p ds = (Inr w, ds')
          \<and> content_of w = content_of v
          \<and> (e \<noteq> JNull \<longrightarrow> v \<noteq> VNull)
          \<and> (string_shaped e \<longrightarrow> (\<exists>s. v = VStr s))
          \<and> (scalar_shaped e \<longrightarrow> is_primitive v)"
          unfolding E T by (simp add: e string_shaped_def scalar_shaped_def)
      qed
    next
      case upper
      note e = JObj [unfolded upper(1)]
      have "esize v < esize e" unfolding e by (rule esize_first)
      then have av: "agree v" using less.IH upper(3) by blast
      show ?thesis unfolding agree_def
      proof (intro allI)
        fix st c p ds
        define dm where "dm = markCovered (generatePathId (JObj [(''uppercase'', v)]) p) ds"
        obtain x st' w ds' where
          r1: "evaluate v st = (Inr x, st')"
          and r2: "tryEvaluate v c (p @ ''.uppercase'') dm = (Inr w, ds')"
          and r3: "content_of w = content_of x"
          and r4: "\<exists>s. x = VStr s"
          by (rule agreeD [OF av, where st = st and c = c and p = "p @ ''.uppercase''" and ds = dm]) (use upper(2) in blast)
        from r4 obtain s where x: "x = VStr s" by blast
        have w: "w = VStr s" using r3 unfolding x by (cases w) auto
        have E: "evaluate e st = (Inr (VStr (toUpperCase s)), st')"
          unfolding e using r1 string_shaped_no_value [OF upper(2)] unfolding x
          by (subst evaluate.simps) (simp add: dispatch_def executeUppercase_def extractValue_def)
        have T: "tryEvaluate e c p ds = (Inr (VStr (toUpperCase s)), ds')"
          unfolding e using r2 unfolding dm_def w by (subst tryEvaluate.simps) (simp add: Let_def)
        show "\<exists>v st' w ds'.
            evaluate e st = (Inr v, st') \<and> tryEvaluate e c p ds = (Inr w, ds')
          \<and> content_of w = content_of v
          \<and> (e \<noteq> JNull \<longrightarrow> v \<noteq> VNull)
          \<and> (string_shaped e \<longrightarrow> (\<exists>s. v = VStr s))
          \<and> (scalar_shaped e \<longrightarrow> is_primitive v)"
          unfolding E T by (simp add: e string_shaped_def scalar_shaped_def)
      qed
    next
      case lower
      note e = JObj [unfolded lower(1)]
      have "esize v < esize e" unfolding e by (rule esize_first)
      then have av: "agree v" using less.IH lower(3) by blast
      show ?thesis unfolding agree_def
      proof (intro allI)
        fix st c p ds
        define dm where "dm = markCovered (generatePathId (JObj [(''lowercase'', v)]) p) ds"
        obtain x st' w ds' where
          r1: "evaluate v st = (Inr x, st')"
          and r2: "tryEvaluate v c (p @ ''.lowercase'') dm = (Inr w, ds')"
          and r3: "content_of w = content_of x"
          and r4: "\<exists>s. x = VStr s"
          by (rule agreeD [OF av, where st = st and c = c and p = "p @ ''.lowercase''" and ds = dm]) (use lower(2) in blast)
        from r4 obtain s where x: "x = VStr s" by blast
        have w: "w = VStr s" using r3 unfolding x by (cases w) auto
        have E: "evaluate e st = (Inr (VStr (toLowerCase s)), st')"
          unfolding e using r1 string_shaped_no_value [OF lower(2)] unfolding x
          by (subst evaluate.simps) (simp add: dispatch_def executeLowercase_def extractValue_def)
        have T: "tryEvaluate e c p ds = (Inr (VStr (toLowerCase s)), ds')"
          unfolding e using r2 unfolding dm_def w by (subst tryEvaluate.simps) (simp add: Let_def)
        show "\<exists>v st' w ds'.
            evaluate e st = (Inr v, st') \<and> tryEvaluate e c p ds = (Inr w, ds')
          \<and> content_of w = content_of v
          \<and> (e \<noteq> JNull \<longrightarrow> v \<noteq> VNull)
          \<and> (string_shaped e \<longrightarrow> (\<exists>s. v = VStr s))
          \<and> (scalar_shaped e \<longrightarrow> is_primitive v)"
          unfolding E T by (simp add: e string_shaped_def scalar_shaped_def)
      qed
    next
      case equals
      note e = JObj [unfolded equals(1)]
      have "esize l < esize e" unfolding e using equals(2) by (rule esize_first_prop)
      then have al: "agree l" using less.IH equals(6) by blast
      have "esize r < esize e" unfolding e using equals(3) by (rule esize_first_prop)
      then have ar: "agree r" using less.IH equals(7) by blast
      note pl = get_prop_SomeD [OF equals(2)]
      note pr = get_prop_SomeD [OF equals(3)]
      show ?thesis unfolding agree_def
      proof (intro allI)
        fix st c p ds
        define dm where "dm = markCovered (generatePathId (JObj [(''equals'', v)]) p) ds"
        obtain lv st1 lw ds1 where
          l1: "evaluate l st = (Inr lv, st1)"
          and l2: "tryEvaluate l c (p @ ''.equals.left'') dm = (Inr lw, ds1)"
          and l3: "content_of lw = content_of lv"
          and l4: "is_primitive lv"
          by (rule agreeD [OF al, where st = st and c = c and p = "p @ ''.equals.left''" and ds = dm]) (use equals(4) in blast)
        obtain rv st2 rw ds2 where
          r1: "evaluate r st1 = (Inr rv, st2)"
          and r2: "tryEvaluate r c (p @ ''.equals.right'') ds1 = (Inr rw, ds2)"
          and r3: "content_of rw = content_of rv"
          and r4: "is_primitive rv"
          by (rule agreeD [OF ar, where st = st1 and c = c and p = "p @ ''.equals.right''" and ds = ds1]) (use equals(5) in blast)
        have lw: "lw = lv" using l4 l3 by (rule content_of_primitive)
        have rw: "rw = rv" using r4 r3 by (rule content_of_primitive)
        have E: "evaluate e st = (Inr (VBool (js_strict_equals lv rv)), st2)"
          unfolding e using l1 r1 pl pr equals(2,3)
          by (subst evaluate.simps) (simp add: dispatch_def executeEquals_def)
        have T: "tryEvaluate e c p ds = (Inr (VBool (js_strict_equals lv rv)), ds2)"
          unfolding e using l2 r2 pl pr equals(2,3) unfolding dm_def lw rw
          by (subst tryEvaluate.simps) (simp add: Let_def)
        show "\<exists>v st' w ds'.
            evaluate e st = (Inr v, st') \<and> tryEvaluate e c p ds = (Inr w, ds')
          \<and> content_of w = content_of v
          \<and> (e \<noteq> JNull \<longrightarrow> v \<noteq> VNull)
          \<and> (string_shaped e \<longrightarrow> (\<exists>s. v = VStr s))
          \<and> (scalar_shaped e \<longrightarrow> is_primitive v)"
          unfolding E T by (simp add: e string_shaped_def scalar_shaped_def)
      qed
    qed
  qed
qed


text \<open>
  Claim C2 (as amended). On the common fragment the strict evaluator succeeds, from every
  scope, and the diagnostic evaluator, for every context, route and tracker, returns a
  value of the same type and content; a value that is not a sequence or mapping is
  returned identically.
\<close>

theorem evaluators_agree_on_common_fragment:
  assumes "common_fragment expr"
  shows "\<exists>v st' w ds'.
           evaluate expr st = (Inr v, st')
         \<and> tryEvaluate expr inputs pathPrefix ds = (Inr w, ds')
         \<and> content_of w = content_of v
         \<and> (is_primitive v \<longrightarrow> w = v)"
proof -
  have "agree expr" using assms by (rule common_fragment_agree)
  then obtain v st' w ds' where
    r: "evaluate expr st = (Inr v, st')" "tryEvaluate expr inputs pathPrefix ds = (Inr w, ds')"
       "content_of w = content_of v"
    by (rule agreeD [where st = st and c = inputs and p = pathPrefix and ds = ds]) blast
  have "is_primitive v \<longrightarrow> w = v" using r(3) content_of_primitive by blast
  with r show ?thesis by blast
qed

theorem evaluators_agree_on_common_fragment_witness:
  "common_fragment (JObj [(''uppercase'', JObj [(''concat'', JArr [JStr ''a'', JStr ''b''])])])
   \<and> execute None (JObj [(''uppercase'', JObj [(''concat'', JArr [JStr ''a'', JStr ''b''])])])
       = Inr (VStr ''AB'')
   \<and> fst (coveragePass (JObj [(''uppercase'', JObj [(''concat'', JArr [JStr ''a'', JStr ''b''])])])
            noInputs) = Inr (VStr ''AB'')"
proof -
  have h: "common_fragment (JObj [(''uppercase'', JObj [(''concat'', JArr [JStr ''a'', JStr ''b''])])])"
    by (simp add: common_fragment.simps string_shaped_def startsWith_dollar_def)
  have v: "evaluate (JObj [(''uppercase'', JObj [(''concat'', JArr [JStr ''a'', JStr ''b''])])])
             (initial_state None)
           = (Inr (VStr ''AB''), (initial_state None)\<lparr>next_addr := 1\<rparr>)"
    by (simp add: strict_simps toUpperCase_def lower_letters_def upper_letters_def)
  from evaluators_agree_on_common_fragment [OF h, of "initial_state None" noInputs "''root''" newTracker]
  show ?thesis using h v by (auto simp add: execute_def coveragePass_def)
qed

text \<open>
  The claim as stated fails: the diagnostic evaluator is an evaluator of its own, which
  knows \<open>get\<close>, \<open>concat\<close> of an array, \<open>uppercase\<close>, \<open>lowercase\<close>, \<open>equals\<close> and the flat
  \<open>if\<close> and \<open>let\<close>, and answers every other operation with a placeholder. The strict
  evaluator gives \<open>{length: "abc"}\<close> the value 3, and \<open>$x\<close> the value of the variable; the
  diagnostic evaluator gives the strings \<open><length>\<close> and \<open>$x\<close>.
\<close>

theorem diagnostic_differs_from_strict:
  "execute None (JObj [(''length'', JStr ''abc'')]) = Inr (VNum 3)
   \<and> fst (coveragePass (JObj [(''length'', JStr ''abc'')]) noInputs) = Inr (VStr ''<length>'')
   \<and> VStr ''<length>'' \<noteq> VNum 3
   \<and> execute (Some [(''x'', VNum 1)]) (JStr ''$x'') = Inr (VNum 1)
   \<and> fst (coveragePass (JStr ''$x'') [''x'' \<mapsto> VNum 1]) = Inr (VStr ''$x'')
   \<and> VStr ''$x'' \<noteq> VNum 1"
  by (simp add: execute_def strict_simps diag_simps)

end
